theory Spec2Isabelle
  imports Main "HOL-Library.Word" "HOL-Library.Sublist" "HOL-Library.Extended_Nat"
begin

section \<open>Python values used by the Gopher crawler\<close>

text \<open>
  A Python \<open>bytes\<close> object is a list of 8-bit words. A Python \<open>str\<close> is a list of
  Unicode code points (natural numbers), because the crawler decodes server bytes
  with \<open>errors='replace'\<close>, which produces U+FFFD, and compares characters with
  \<open>' '\<close>, \<open>'~'\<close> and 127. ASCII literals of the source are written with \<open>bytes_of\<close>
  and \<open>str_of\<close>.
\<close>

type_synonym byte = "8 word"
type_synonym pybytes = "byte list"
type_synonym pystr = "nat list"

definition bytes_of :: "string \<Rightarrow> pybytes" where
  "bytes_of s = map of_char s"

definition str_of :: "string \<Rightarrow> pystr" where
  "str_of s = map of_char s"

datatype py_error =
  UnicodeDecodeError | ValueError | IndexError | TypeError | SocketTimeout | SocketError

subsection \<open>The UTF-8 codec\<close>

text \<open>
  \<open>bytes.decode('utf-8', ...)\<close> of CPython 3: one result per decoded character or
  per decoding error. An error covers the invalid start byte alone, or the bytes
  of a sequence read before the first invalid continuation byte, or the whole of
  a sequence cut off by the end of the input. Overlong forms (\<open>C0\<close>, \<open>C1\<close>,
  \<open>E0 80..9F\<close>, \<open>F0 80..8F\<close>), surrogates (\<open>ED A0..BF\<close>) and code points above
  U+10FFFF (\<open>F4 90..\<close>, \<open>F5..FF\<close>) are errors. \<open>None\<close> marks an error.
\<close>

definition is_cont :: "byte \<Rightarrow> bool" where
  "is_cont c = (0x80 \<le> c \<and> c \<le> 0xBF)"

definition second_ok :: "byte \<Rightarrow> byte \<Rightarrow> bool" where
  "second_ok b c =
     (is_cont c \<and> \<not> (b = 0xE0 \<and> c < 0xA0) \<and> \<not> (b = 0xED \<and> 0xA0 \<le> c)
      \<and> \<not> (b = 0xF0 \<and> c < 0x90) \<and> \<not> (b = 0xF4 \<and> 0x90 \<le> c))"

definition cp2 :: "byte \<Rightarrow> byte \<Rightarrow> nat" where
  "cp2 b c = (unat b mod 32) * 64 + unat c mod 64"

definition cp3 :: "byte \<Rightarrow> byte \<Rightarrow> byte \<Rightarrow> nat" where
  "cp3 b c d = (unat b mod 16) * 4096 + (unat c mod 64) * 64 + unat d mod 64"

definition cp4 :: "byte \<Rightarrow> byte \<Rightarrow> byte \<Rightarrow> byte \<Rightarrow> nat" where
  "cp4 b c d e =
     (unat b mod 8) * 262144 + (unat c mod 64) * 4096 + (unat d mod 64) * 64 + unat e mod 64"

fun utf8_decode :: "pybytes \<Rightarrow> nat option list" where
  "utf8_decode [] = []"
| "utf8_decode (b # bs) =
     (if b < 0x80 then Some (unat b) # utf8_decode bs
      else if b < 0xC2 then None # utf8_decode bs
      else if b < 0xE0 then
        (case bs of
           [] \<Rightarrow> [None]
         | c # cs \<Rightarrow>
             if is_cont c then Some (cp2 b c) # utf8_decode cs else None # utf8_decode bs)
      else if b < 0xF0 then
        (case bs of
           [] \<Rightarrow> [None]
         | c # cs \<Rightarrow>
             if \<not> second_ok b c then None # utf8_decode bs
             else (case cs of
                     [] \<Rightarrow> [None]
                   | d # ds \<Rightarrow>
                       if is_cont d then Some (cp3 b c d) # utf8_decode ds
                       else None # utf8_decode cs))
      else if b < 0xF5 then
        (case bs of
           [] \<Rightarrow> [None]
         | c # cs \<Rightarrow>
             if \<not> second_ok b c then None # utf8_decode bs
             else (case cs of
                     [] \<Rightarrow> [None]
                   | d # ds \<Rightarrow>
                       if \<not> is_cont d then None # utf8_decode cs
                       else (case ds of
                               [] \<Rightarrow> [None]
                             | e # es \<Rightarrow>
                                 if is_cont e then Some (cp4 b c d e) # utf8_decode es
                                 else None # utf8_decode ds)))
      else None # utf8_decode bs)"

text \<open>\<open>errors='strict'\<close>: the first error raises \<open>UnicodeDecodeError\<close>.\<close>

definition decode_utf8_strict :: "pybytes \<Rightarrow> py_error + pystr" where
  "decode_utf8_strict bs =
     (if None \<in> set (utf8_decode bs) then Inl UnicodeDecodeError
      else Inr (map the (utf8_decode bs)))"

text \<open>\<open>errors='replace'\<close>: every error becomes U+FFFD; this never raises.\<close>

definition decode_utf8_replace :: "pybytes \<Rightarrow> pystr" where
  "decode_utf8_replace bs = map (\<lambda>r. case r of None \<Rightarrow> 0xFFFD | Some c \<Rightarrow> c) (utf8_decode bs)"

text \<open>\<open>decode('latin-1')\<close>: every byte is the code point of the same number.\<close>

definition decode_latin1 :: "pybytes \<Rightarrow> pystr" where
  "decode_latin1 bs = map unat bs"

subsection \<open>Character classes\<close>

text \<open>
  \<open>str.isspace\<close>: the code points CPython's Unicode database marks as whitespace.
\<close>

definition isspace :: "nat \<Rightarrow> bool" where
  "isspace c =
     ((9 \<le> c \<and> c \<le> 13) \<or> (28 \<le> c \<and> c \<le> 32) \<or> c = 0x85 \<or> c = 0xA0 \<or> c = 0x1680
      \<or> (0x2000 \<le> c \<and> c \<le> 0x200A) \<or> c = 0x2028 \<or> c = 0x2029 \<or> c = 0x202F
      \<or> c = 0x205F \<or> c = 0x3000)"

text \<open>
  \<open>str.isprintable\<close> on the code points a Latin-1 decoding can produce (below 256):
  the control characters (0..31, 127..159), the no-break space 160 and the soft
  hyphen 173 are not printable. The crawler applies it to Latin-1 text only.
\<close>

definition isprintable_latin1 :: "nat \<Rightarrow> bool" where
  "isprintable_latin1 c = ((32 \<le> c \<and> c \<le> 126) \<or> (161 \<le> c \<and> c \<le> 255 \<and> c \<noteq> 173))"

section \<open>The classifier: \<open>is_text_file\<close> (gopher_client_08.py)\<close>

definition has_binary_signature :: "pybytes \<Rightarrow> bool" where
  "has_binary_signature data =
     (take 2 data = bytes_of ''PK''
      \<or> take 4 data = 0x89 # bytes_of ''PNG''
      \<or> take 3 data = bytes_of ''GIF''
      \<or> take 2 data = bytes_of ''BM''
      \<or> take 4 data = [0xFF, 0xD8, 0xFF, 0xE0]
      \<or> take 5 data = bytes_of ''%PDF-'')"

definition printable_chars :: "pystr \<Rightarrow> nat" where
  "printable_chars text = length (filter (\<lambda>c. isprintable_latin1 c \<or> isspace c) text)"

text \<open>
  The source compares the float \<open>printable_chars / len(sample)\<close> with the float
  literal \<open>0.8\<close>. Both operands of the division are integers of at most
  \<open>sample_size\<close>, the division is correctly rounded and rounding is monotone, so for
  samples of up to 4096 bytes the float comparison agrees with the exact one: a
  quotient equal to 4/5 rounds to the literal itself, and a larger quotient exceeds
  4/5 by at least 1/20480, far more than the rounding error.
\<close>

definition mostly_printable :: "pybytes \<Rightarrow> bool" where
  "mostly_printable sample =
     (length sample > 0
      \<and> real (printable_chars (decode_latin1 sample)) / real (length sample) > 0.8)"

definition is_text_file :: "pybytes \<Rightarrow> nat \<Rightarrow> bool" where
  "is_text_file data sample_size =
     (if data = [] then False
      else
        let sample = take sample_size data in
        (case decode_utf8_strict sample of
           Inr text \<Rightarrow> True
         | Inl err \<Rightarrow>
             if mostly_printable sample then True
             else if has_binary_signature data then False
             else True))"

section \<open>The menu parser: \<open>parse_gopher_menu\<close> (gopher_client_08.py)\<close>

text \<open>
  \<open>str.split(sep)\<close> with a non-empty separator: the occurrences of \<open>sep\<close> are found
  from left to right without overlap, and the pieces between them are returned
  (always at least one piece).
\<close>

function py_split :: "pystr \<Rightarrow> pystr \<Rightarrow> pystr list" where
  "py_split sep [] = [[]]"
| "py_split sep (c # cs) =
     (if sep \<noteq> [] \<and> prefix sep (c # cs) then [] # py_split sep (drop (length sep) (c # cs))
      else (case py_split sep cs of
              [] \<Rightarrow> [[c]]
            | w # ws \<Rightarrow> (c # w) # ws))"
  by pat_completeness auto
termination
  by (relation "measure (\<lambda>(sep, s). length s)") (auto simp: Suc_diff_le)

record item =
  item_type :: nat
  display :: pystr
  selector :: pystr
  host :: pystr
  port :: int

text \<open>
  \<open>int(parts[3])\<close> is Python's own conversion (surrounding whitespace, a sign,
  underscores and every Unicode decimal digit are accepted); it is a parameter
  \<open>to_int\<close> of the parser, and \<open>Inl ValueError\<close> is its exception.
\<close>

definition parse_port :: "(pystr \<Rightarrow> py_error + int) \<Rightarrow> pystr \<Rightarrow> int" where
  "parse_port to_int s =
     (case to_int s of
        Inr p \<Rightarrow> if p \<le> 0 \<or> p > 65535 then 70 else p
      | Inl err \<Rightarrow> 70)"

text \<open>The body of the loop over the lines: the items one line appends.\<close>

definition menu_line_items :: "(pystr \<Rightarrow> py_error + int) \<Rightarrow> pystr \<Rightarrow> item list" where
  "menu_line_items to_int line =
     (if line = [] \<or> line = str_of ''.'' then []
      else
        (case line of
           [] \<Rightarrow> []
         | t # rest \<Rightarrow>
             let parts = py_split [9] rest in
             if length parts \<ge> 4 then
               [\<lparr>item_type = t, display = parts ! 0, selector = parts ! 1, host = parts ! 2,
                 port = parse_port to_int (parts ! 3)\<rparr>]
             else []))"

definition parse_menu_lines :: "(pystr \<Rightarrow> py_error + int) \<Rightarrow> pystr list \<Rightarrow> item list" where
  "parse_menu_lines to_int lines = concat (map (menu_line_items to_int) lines)"

text \<open>
  Decoding with \<open>errors='replace'\<close> cannot raise, so the Latin-1 fallback and the
  empty result of the source's \<open>except\<close> branches are never taken.
\<close>

definition parse_gopher_menu :: "(pystr \<Rightarrow> py_error + int) \<Rightarrow> pybytes \<Rightarrow> item list" where
  "parse_gopher_menu to_int menu_data =
     parse_menu_lines to_int (py_split [13, 10] (decode_utf8_replace menu_data))"

text \<open>
  An instance of \<open>int()\<close> for the concrete runs below, whose port fields are
  strings of ASCII digits: on those it agrees with Python, as it does on the empty
  string (\<open>ValueError\<close>); it accepts nothing else.
\<close>

definition int_of_digits :: "pystr \<Rightarrow> py_error + int" where
  "int_of_digits s =
     (if s \<noteq> [] \<and> (\<forall>c \<in> set s. 48 \<le> c \<and> c \<le> 57)
      then Inr (foldl (\<lambda>acc c. 10 * acc + (int c - 48)) 0 s)
      else Inl ValueError)"

section \<open>Servers, the prober and problematic resources (gopher_client_08.py)\<close>

text \<open>\<open>str.strip()\<close>: the whitespace at both ends is removed.\<close>

definition py_strip :: "pystr \<Rightarrow> pystr" where
  "py_strip s = rev (dropWhile isspace (rev (dropWhile isspace s)))"

text \<open>\<open>needle in haystack\<close> on strings.\<close>

fun str_contains :: "pystr \<Rightarrow> pystr \<Rightarrow> bool" where
  "str_contains [] needle = (needle = [])"
| "str_contains (c # cs) needle = (prefix needle (c # cs) \<or> str_contains cs needle)"

definition endswith_slash :: "pystr \<Rightarrow> bool" where
  "endswith_slash s = (s \<noteq> [] \<and> last s = 47)"

text \<open>
  \<open>str.lower()\<close> follows the Unicode case tables; it is the parameter \<open>lower\<close>.
  Hosts are always strings here, so the \<open>isinstance\<close> tests of the source hold.
\<close>

definition is_same_server ::
  "(pystr \<Rightarrow> pystr) \<Rightarrow> pystr \<Rightarrow> int \<Rightarrow> pystr \<Rightarrow> int \<Rightarrow> bool" where
  "is_same_server lower host1 port1 host2 port2 =
     (lower (py_strip host1) = lower (py_strip host2) \<and> port1 = port2)"

text \<open>
  \<open>check_external_server\<close>: \<open>connect_ok h p\<close> tells whether the socket calls on
  \<open>(h, p)\<close> pass without an exception. The result is the returned boolean and the
  list of connection attempts the call made (none or one).
\<close>

definition check_external_server ::
  "(pystr \<Rightarrow> int \<Rightarrow> bool) \<Rightarrow> pystr \<Rightarrow> int \<Rightarrow> bool \<times> (pystr \<times> int) list" where
  "check_external_server connect_ok host0 port0 =
     (if py_strip host0 = [] then (False, [])
      else
        let h = py_strip host0 in
        if \<exists>c \<in> set h. c < 32 \<or> c > 126 then (False, [])
        else (connect_ok h port0, [(h, port0)]))"

definition problem_keywords :: "pystr list" where
  "problem_keywords = [str_of ''firehose'', str_of ''tarpit'', str_of ''godot'']"

text \<open>
  \<open>download_time\<close> is a difference of two clock readings, a float; the comparisons
  with 15 and 25 are exact on it, so it is a real number here.
\<close>

definition is_problematic_resource ::
  "(pystr \<Rightarrow> pystr) \<Rightarrow> pystr \<Rightarrow> nat \<Rightarrow> real \<Rightarrow> bool" where
  "is_problematic_resource lower sel file_size download_time =
     (if \<exists>keyword \<in> set problem_keywords. str_contains (lower sel) keyword then True
      else if file_size > 1024 * 1024 \<and> download_time > 15 then True
      else if download_time \<ge> 25 then True
      else False)"

section \<open>The crawl engine: the loop of \<open>main\<close> (gopher_client_08.py)\<close>

text \<open>
  The lines that \<open>main\<close> prints are not part of the model; as in
  \<open>send_gopher_request\<close>, \<open>print\<close> is assumed not to raise.
\<close>

text \<open>
  Everything outside the program that the loop consults:
  \<^item> \<open>str_lower\<close> and \<open>str_to_int\<close>: Python's \<open>str.lower\<close> and \<open>int\<close>;
  \<^item> \<open>request n host port selector\<close>: what \<open>send_gopher_request\<close> returns for the
    call made after \<open>n\<close> earlier calls, with the duration \<open>main\<close> measures around
    it (the empty bytes are its answer to every failure);
  \<^item> \<open>connect n host port\<close>: whether the prober's connection, attempted after
    \<open>n\<close> earlier attempts, succeeds.
\<close>

record env =
  str_lower :: "pystr \<Rightarrow> pystr"
  str_to_int :: "pystr \<Rightarrow> py_error + int"
  request :: "nat \<Rightarrow> pystr \<Rightarrow> int \<Rightarrow> pystr \<Rightarrow> pybytes \<times> real"
  connect :: "nat \<Rightarrow> pystr \<Rightarrow> int \<Rightarrow> bool"

text \<open>
  The local variables of \<open>main\<close>. The last three fields are not variables of the
  program: they record its network calls in order (\<open>send_gopher_request\<close> calls,
  \<open>check_external_server\<close> calls, connection attempts of the prober).
\<close>

record crawl_state =
  visited_selectors :: "pystr set"
  directories :: "pystr list"
  text_files :: "pystr list"
  binary_files :: "pystr list"
  invalid_references :: "pystr set"
  external_servers :: "(pystr \<times> int) \<rightharpoonup> bool"
  problematic_resources :: "pystr set"
  text_file_contents :: "pystr \<rightharpoonup> pybytes"
  file_sizes :: "pystr \<rightharpoonup> nat"
  download_times :: "pystr \<rightharpoonup> real"
  selectors_to_visit :: "(pystr \<times> pystr \<times> int) list"
  processed_count :: nat
  request_log :: "(pystr \<times> int \<times> pystr) list"
  probe_log :: "(pystr \<times> int) list"
  connect_log :: "(pystr \<times> int) list"

definition max_queue_size :: nat where
  "max_queue_size = 1000"

definition max_items :: nat where
  "max_items = 5000"

definition initial_state :: "pystr \<Rightarrow> int \<Rightarrow> crawl_state" where
  "initial_state host0 port0 =
     \<lparr>visited_selectors = {}, directories = [], text_files = [], binary_files = [],
      invalid_references = {}, external_servers = Map.empty, problematic_resources = {},
      text_file_contents = Map.empty, file_sizes = Map.empty, download_times = Map.empty,
      selectors_to_visit = [([], host0, port0)], processed_count = 0,
      request_log = [], probe_log = [], connect_log = []\<rparr>"

text \<open>The body of \<open>for item in menu_items\<close>.\<close>

definition process_item :: "env \<Rightarrow> pystr \<Rightarrow> int \<Rightarrow> item \<Rightarrow> crawl_state \<Rightarrow> crawl_state" where
  "process_item e current_host current_port it st =
     (if length (selector it) > 255 then st
      else if \<not> is_same_server (str_lower e) current_host current_port (host it) (port it) then
        (let server_key = (host it, port it) in
         if external_servers st server_key = None then
           (let (up, attempts) =
                  check_external_server (connect e (length (connect_log st))) (host it) (port it)
            in st\<lparr>external_servers := (external_servers st)(server_key \<mapsto> up),
                  probe_log := probe_log st @ [server_key],
                  connect_log := connect_log st @ attempts\<rparr>)
         else st)
      else if item_type it = 49 then
        st\<lparr>selectors_to_visit := selectors_to_visit st @ [(selector it, host it, port it)]\<rparr>
      else if item_type it = 48 then
        (if selector it \<notin> set (text_files st) \<and> selector it \<notin> set (binary_files st) then
           st\<lparr>text_files := text_files st @ [selector it],
              selectors_to_visit := selectors_to_visit st @ [(selector it, host it, port it)]\<rparr>
         else st)
      else if item_type it = 51 then
        st\<lparr>invalid_references := insert (selector it) (invalid_references st)\<rparr>
      else if item_type it \<noteq> 105 then
        (if selector it \<notin> set (binary_files st) \<and> selector it \<notin> set (text_files st) then
           st\<lparr>binary_files := binary_files st @ [selector it],
              selectors_to_visit := selectors_to_visit st @ [(selector it, host it, port it)]\<rparr>
         else st)
      else st)"

text \<open>The \<open>else\<close> branch of \<open>if is_directory\<close>: the response is a file.\<close>

definition process_file :: "pystr \<Rightarrow> pybytes \<Rightarrow> crawl_state \<Rightarrow> crawl_state" where
  "process_file sel response st =
     (let file_size = length response;
          st1 = st\<lparr>file_sizes := (file_sizes st)(sel \<mapsto> file_size)\<rparr>
      in
        if is_text_file response 4096 then
          (if sel \<notin> set (binary_files st1) then
             (let st2 = (if sel \<notin> set (text_files st1)
                         then st1\<lparr>text_files := text_files st1 @ [sel]\<rparr> else st1)
              in if file_size < 1024 * 1024
                 then st2\<lparr>text_file_contents := (text_file_contents st2)(sel \<mapsto> response)\<rparr>
                 else st2)
           else st1)
        else
          (if sel \<notin> set (text_files st1) then
             (if sel \<notin> set (binary_files st1)
              then st1\<lparr>binary_files := binary_files st1 @ [sel]\<rparr> else st1)
           else st1))"

text \<open>
  What one iteration does after the pop, for a selector not visited before.
\<close>

definition visit :: "env \<Rightarrow> pystr \<Rightarrow> pystr \<Rightarrow> int \<Rightarrow> crawl_state \<Rightarrow> crawl_state" where
  "visit e sel current_host current_port st =
     (let (response, request_duration) =
            request e (length (request_log st)) current_host current_port sel;
          st1 = st\<lparr>visited_selectors := insert sel (visited_selectors st),
                    request_log := request_log st @ [(current_host, current_port, sel)],
                    download_times := (download_times st)(sel \<mapsto> request_duration)\<rparr>
      in
        if response = [] then
          st1\<lparr>invalid_references := insert sel (invalid_references st1)\<rparr>
        else
          (let st2 = (if is_problematic_resource (str_lower e) sel (length response)
                           request_duration
                      then st1\<lparr>problematic_resources := insert sel (problematic_resources st1)\<rparr>
                      else st1);
               menu_items = parse_gopher_menu (str_to_int e) response;
               is_directory = (menu_items \<noteq> [] \<or> sel = [] \<or> endswith_slash sel)
           in
             if is_directory then
               fold (process_item e current_host current_port) menu_items
                 (if sel \<notin> set (directories st2)
                  then st2\<lparr>directories := directories st2 @ [sel]\<rparr> else st2)
             else process_file sel response st2))"

text \<open>
  One iteration of the \<open>while\<close> loop. \<open>pop(0)\<close> raises \<open>IndexError\<close> on an empty
  list.
\<close>

definition crawl_step :: "env \<Rightarrow> crawl_state \<Rightarrow> py_error + crawl_state" where
  "crawl_step e st =
     (let queue = (if length (selectors_to_visit st) > max_queue_size
                   then take max_queue_size (selectors_to_visit st)
                   else selectors_to_visit st)
      in
        case queue of
          [] \<Rightarrow> Inl IndexError
        | (sel, current_host, current_port) # rest \<Rightarrow>
            (let st1 = st\<lparr>selectors_to_visit := rest,
                           processed_count := processed_count st + 1\<rparr>
             in if sel \<in> visited_selectors st1 then Inr st1
                else Inr (visit e sel current_host current_port st1)))"

lemma process_item_processed_count [simp]:
  "processed_count (process_item e h p it st) = processed_count st"
  by (simp add: process_item_def Let_def split: prod.splits)

lemma fold_process_item_processed_count [simp]:
  "processed_count (fold (process_item e h p) its st) = processed_count st"
  by (induction its arbitrary: st) simp_all

lemma process_file_processed_count [simp]:
  "processed_count (process_file sel response st) = processed_count st"
  by (simp add: process_file_def Let_def)

lemma visit_processed_count [simp]:
  "processed_count (visit e sel h p st) = processed_count st"
  by (simp add: visit_def Let_def split: prod.splits)

lemma crawl_step_processed_count:
  "crawl_step e st = Inr st' \<Longrightarrow> processed_count st' = Suc (processed_count st)"
  by (auto simp: crawl_step_def Let_def split: list.splits prod.splits if_splits)

function crawl_loop :: "env \<Rightarrow> crawl_state \<Rightarrow> py_error + crawl_state" where
  "crawl_loop e st =
     (if selectors_to_visit st \<noteq> [] \<and> processed_count st < max_items then
        (case crawl_step e st of
           Inl err \<Rightarrow> Inl err
         | Inr st' \<Rightarrow> crawl_loop e st')
      else Inr st)"
  by pat_completeness auto
termination
  by (relation "measure (\<lambda>(e, st). max_items - processed_count st)")
     (auto dest: crawl_step_processed_count)

declare crawl_loop.simps [simp del]

definition crawl :: "env \<Rightarrow> pystr \<Rightarrow> int \<Rightarrow> py_error + crawl_state" where
  "crawl e host0 port0 = crawl_loop e (initial_state host0 port0)"

section \<open>The summary: size extremes (gopher_client_08.py)\<close>

definition clean_files :: "pystr list \<Rightarrow> pystr set \<Rightarrow> pystr list" where
  "clean_files files problematic = filter (\<lambda>f. f \<notin> problematic) files"

text \<open>
  The four variables of one extremes loop. \<open>float('inf')\<close>, the start value of the
  smallest size, is \<open>\<infinity>\<close>; sizes are lengths.
\<close>

record extremes =
  smallest_file :: "pystr option"
  largest_file :: "pystr option"
  smallest_size :: enat
  largest_size :: nat

definition extremes_init :: extremes where
  "extremes_init =
     \<lparr>smallest_file = None, largest_file = None, smallest_size = \<infinity>, largest_size = 0\<rparr>"

definition extremes_step :: "(pystr \<rightharpoonup> nat) \<Rightarrow> pystr \<Rightarrow> extremes \<Rightarrow> extremes" where
  "extremes_step sizes file x =
     (case sizes file of
        None \<Rightarrow> x
      | Some sz \<Rightarrow>
          (let x1 = (if enat sz < smallest_size x
                     then x\<lparr>smallest_size := enat sz, smallest_file := Some file\<rparr> else x)
           in if sz > largest_size x1
              then x1\<lparr>largest_size := sz, largest_file := Some file\<rparr> else x1))"

definition size_extremes :: "(pystr \<rightharpoonup> nat) \<Rightarrow> pystr list \<Rightarrow> extremes" where
  "size_extremes sizes files = fold (extremes_step sizes) files extremes_init"

text \<open>
  What the summary prints about the extremes: a line is printed under
  \<open>if smallest_text_file:\<close>, which is false for \<open>None\<close> and for the empty string,
  and shows the file with the size variable. The problematic resources are
  printed as a list of their own.
\<close>

definition printed_smallest :: "extremes \<Rightarrow> (pystr \<times> enat) option" where
  "printed_smallest x =
     (case smallest_file x of
        None \<Rightarrow> None
      | Some f \<Rightarrow> if f = [] then None else Some (f, smallest_size x))"

definition printed_largest :: "extremes \<Rightarrow> (pystr \<times> nat) option" where
  "printed_largest x =
     (case largest_file x of
        None \<Rightarrow> None
      | Some f \<Rightarrow> if f = [] then None else Some (f, largest_size x))"

record summary =
  smallest_text :: "(pystr \<times> enat) option"
  largest_text :: "(pystr \<times> nat) option"
  smallest_binary :: "(pystr \<times> enat) option"
  largest_binary :: "(pystr \<times> nat) option"
  listed_problematic :: "pystr set"

definition summarize :: "crawl_state \<Rightarrow> summary" where
  "summarize st =
     (let clean_text_files = clean_files (text_files st) (problematic_resources st);
          clean_binary_files = clean_files (binary_files st) (problematic_resources st);
          t = size_extremes (file_sizes st) clean_text_files;
          b = size_extremes (file_sizes st) clean_binary_files
      in \<lparr>smallest_text = printed_smallest t, largest_text = printed_largest t,
          smallest_binary = printed_smallest b, largest_binary = printed_largest b,
          listed_problematic = problematic_resources st\<rparr>)"

section \<open>The transport: \<open>send_gopher_request\<close> (gopher_client_08.py)\<close>

text \<open>
  One connection as the client sees it: whether \<open>connect\<close> and \<open>sendall\<close> raise,
  what the \<open>k\<close>-th call of \<open>recv(4096)\<close> returns or raises (the empty bytes mean
  that the peer closed the connection), the clock reading \<open>start_time\<close> taken before
  the loop and the reading \<open>current_time\<close> taken in its \<open>k\<close>-th iteration.
\<close>

record connection =
  connect_raises :: "py_error option"
  sendall_raises :: "py_error option"
  recv :: "nat \<Rightarrow> py_error + pybytes"
  start_time :: real
  clock :: "nat \<Rightarrow> real"

text \<open>How the receive loop was left: the four \<open>break\<close>s of the source.\<close>

datatype loop_exit = SizeExceeded | TimeExceeded | ConnectionClosed | ReceiveTimeout

text \<open>
  The \<open>while True\<close> loop, entered at iteration \<open>k\<close> with \<open>data\<close> and
  \<open>last_progress_time\<close>. It may run forever: \<open>None\<close> is a loop that never leaves.
  An exception of \<open>recv\<close> other than \<open>socket.timeout\<close> leaves the loop as \<open>Inl\<close>.
\<close>

partial_function (option) recv_loop ::
  "connection \<Rightarrow> real \<Rightarrow> nat \<Rightarrow> real \<Rightarrow> nat \<Rightarrow> pybytes \<Rightarrow> real
     \<Rightarrow> (py_error + pybytes \<times> loop_exit) option" where
  "recv_loop c timeout max_data_size max_time k data last_progress_time =
     (if length data > max_data_size then Some (Inr (data, SizeExceeded))
      else
        let current_time = clock c k in
        if current_time - start_time c > max_time then Some (Inr (data, TimeExceeded))
        else
          (case recv c k of
             Inr chunk \<Rightarrow>
               if chunk = [] then Some (Inr (data, ConnectionClosed))
               else recv_loop c timeout max_data_size max_time (Suc k) (data @ chunk) current_time
           | Inl SocketTimeout \<Rightarrow>
               if current_time - last_progress_time > timeout
               then Some (Inr (data, ReceiveTimeout))
               else recv_loop c timeout max_data_size max_time (Suc k) data last_progress_time
           | Inl err \<Rightarrow> Some (Inl err)))"

text \<open>
  The whole function: every exception ends in one of the \<open>except\<close> clauses, which
  return the empty bytes; otherwise the collected data are returned, and nothing
  else. The lines that the function prints are not part of the model: \<open>print\<close> is
  assumed not to raise, as it does not when the standard output can encode the
  selector (the first \<open>print\<close> stands before the \<open>try\<close>, so an exception of it would
  leave the function).
\<close>

definition send_gopher_request :: "connection \<Rightarrow> real \<Rightarrow> nat \<Rightarrow> real \<Rightarrow> pybytes option" where
  "send_gopher_request c timeout max_data_size max_time =
     (case connect_raises c of
        Some err \<Rightarrow> Some []
      | None \<Rightarrow>
          (case sendall_raises c of
             Some err \<Rightarrow> Some []
           | None \<Rightarrow>
               (case recv_loop c timeout max_data_size max_time 0 [] (start_time c) of
                  None \<Rightarrow> None
                | Some (Inl err) \<Rightarrow> Some []
                | Some (Inr (data, why)) \<Rightarrow> Some data)))"

text \<open>The bytes of the chunks that the first \<open>k\<close> calls of \<open>recv\<close> returned.\<close>

definition received :: "connection \<Rightarrow> nat \<Rightarrow> pybytes" where
  "received c k = concat (map (\<lambda>i. case recv c i of Inr chunk \<Rightarrow> chunk | Inl err \<Rightarrow> []) [0..<k])"

text \<open>
  What the operating system guarantees about the clock: it does not run
  backwards, and a \<open>recv\<close> that raises \<open>socket.timeout\<close> has waited for the socket's
  timeout.
\<close>

definition clock_ok :: "connection \<Rightarrow> real \<Rightarrow> bool" where
  "clock_ok c timeout =
     (\<forall>k. clock c k \<le> clock c (Suc k)
          \<and> (recv c k = Inl SocketTimeout \<longrightarrow> clock c k + timeout \<le> clock c (Suc k)))"

text \<open>
  The value of \<open>last_progress_time\<close> at the head of iteration \<open>k\<close>: the clock reading
  of the last iteration before it whose \<open>recv\<close> returned a chunk, \<open>start_time\<close> when
  there is none.
\<close>

fun last_progress :: "connection \<Rightarrow> nat \<Rightarrow> real" where
  "last_progress c 0 = start_time c"
| "last_progress c (Suc k) =
     (case recv c k of
        Inr chunk \<Rightarrow> if chunk = [] then last_progress c k else clock c k
      | Inl err \<Rightarrow> last_progress c k)"

text \<open>
  What iteration \<open>k\<close> of the loop does when the loop gets there, in the order of the
  source: the size test on the bytes held, the time test on the clock reading,
  then \<open>recv\<close>. \<open>None\<close> is an iteration that goes on to the next one.
\<close>

definition leaves ::
  "connection \<Rightarrow> real \<Rightarrow> nat \<Rightarrow> real \<Rightarrow> nat \<Rightarrow> (py_error + loop_exit) option" where
  "leaves c timeout max_data_size max_time k =
     (if length (received c k) > max_data_size then Some (Inr SizeExceeded)
      else if clock c k - start_time c > max_time then Some (Inr TimeExceeded)
      else
        (case recv c k of
           Inr chunk \<Rightarrow> if chunk = [] then Some (Inr ConnectionClosed) else None
         | Inl SocketTimeout \<Rightarrow>
             if clock c k - last_progress c k > timeout then Some (Inr ReceiveTimeout) else None
         | Inl err \<Rightarrow> Some (Inl err)))"

text \<open>
  The loop is left in iteration \<open>i\<close> with the result \<open>r\<close>: every iteration before \<open>i\<close>
  goes on, and iteration \<open>i\<close> leaves, by an exception or by a \<open>break\<close> with the bytes
  received so far.
\<close>

definition left_at ::
  "connection \<Rightarrow> real \<Rightarrow> nat \<Rightarrow> real \<Rightarrow> nat \<Rightarrow> py_error + pybytes \<times> loop_exit \<Rightarrow> bool" where
  "left_at c timeout max_data_size max_time i r =
     ((\<forall>i' < i. leaves c timeout max_data_size max_time i' = None)
      \<and> (case leaves c timeout max_data_size max_time i of
            None \<Rightarrow> False
          | Some (Inl err) \<Rightarrow> r = Inl err
          | Some (Inr why) \<Rightarrow> r = Inr (received c i, why)))"

section \<open>The states a crawl passes through\<close>

text \<open>
  The states at the head of the \<open>while\<close> loop of \<open>main\<close>: the initial one, and the
  one after each iteration the loop condition admits.
\<close>

inductive reachable :: "env \<Rightarrow> pystr \<Rightarrow> int \<Rightarrow> crawl_state \<Rightarrow> bool"
  for e :: env and host0 :: pystr and port0 :: int where
  start: "reachable e host0 port0 (initial_state host0 port0)"
| iterate: "reachable e host0 port0 st \<Longrightarrow> selectors_to_visit st \<noteq> []
     \<Longrightarrow> processed_count st < max_items \<Longrightarrow> crawl_step e st = Inr st'
     \<Longrightarrow> reachable e host0 port0 st'"

text \<open>
  \<open>later e st st'\<close>: the loop gets from the state \<open>st\<close> at its head to the state \<open>st'\<close>
  at its head, by no iteration or by some.
\<close>

inductive later :: "env \<Rightarrow> crawl_state \<Rightarrow> crawl_state \<Rightarrow> bool"
  for e :: env and st :: crawl_state where
  now: "later e st st"
| iterate: "later e st st' \<Longrightarrow> selectors_to_visit st' \<noteq> []
     \<Longrightarrow> processed_count st' < max_items \<Longrightarrow> crawl_step e st' = Inr st''
     \<Longrightarrow> later e st st''"

section \<open>The line parser of gopher_client_03.py\<close>


section \<open>Concrete servers\<close>

text \<open>
  \<open>str.lower\<close> on ASCII strings, for concrete runs (the strings of the runs below
  are ASCII).
\<close>

definition ascii_lower :: "pystr \<Rightarrow> pystr" where
  "ascii_lower s = map (\<lambda>c. if 65 \<le> c \<and> c \<le> 90 then c + 32 else c) s"

text \<open>One menu line: type and display, selector, host, port, CR LF.\<close>

definition menu_line :: "string \<Rightarrow> string \<Rightarrow> string \<Rightarrow> string \<Rightarrow> pybytes" where
  "menu_line d s h p =
     bytes_of d @ [9] @ bytes_of s @ [9] @ bytes_of h @ [9] @ bytes_of p @ [13, 10]"


text \<open>
  A server whose root menu lists the text file \<open>/f\<close> (on \<open>Host\<close>) and the root
  itself; \<open>/f\<close> is \<open>hello\<close>.
\<close>

definition small_server :: env where
  "small_server =
     \<lparr>str_lower = ascii_lower, str_to_int = int_of_digits,
      request = (\<lambda>n h p sel.
        if sel = [] then
          (menu_line ''0File'' ''/f'' ''Host'' ''70'' @ menu_line ''1Root'' [] ''host'' ''70'', 1)
        else if sel = str_of ''/f'' then (bytes_of ''hello'', 2)
        else ([], 1)),
      connect = (\<lambda>n h p. True)\<rparr>"

text \<open>A server none of whose requests succeeds.\<close>

definition dead_server :: env where
  "dead_server =
     \<lparr>str_lower = ascii_lower, str_to_int = int_of_digits,
      request = (\<lambda>n h p sel. ([], 10)), connect = (\<lambda>n h p. False)\<rparr>"

text \<open>
  A server whose root menu is one line: a directory on \<open>other:70\<close> whose selector
  is 256 letters \<open>a\<close>.
\<close>

definition long_selector_menu :: pybytes where
  "long_selector_menu =
     bytes_of ''1Ext'' @ [9] @ replicate 256 97 @ [9] @ bytes_of ''other'' @ [9]
       @ bytes_of ''70'' @ [13, 10]"

definition long_selector_server :: env where
  "long_selector_server =
     \<lparr>str_lower = ascii_lower, str_to_int = int_of_digits,
      request = (\<lambda>n h p sel. if sel = [] then (long_selector_menu, 1) else ([], 1)),
      connect = (\<lambda>n h p. True)\<rparr>"

text \<open>
  A peer that sends \<open>hello\<close> and then stalls without closing: every later \<open>recv\<close>
  times out after the socket's 10 seconds. The server \<open>stalled_server\<close> lists the
  text file \<open>/f\<close> in its root menu and answers the request for \<open>/f\<close> as this peer
  does; \<open>main\<close> measures 20.2 seconds for that request.
\<close>

definition stalled_peer :: connection where
  "stalled_peer =
     \<lparr>connect_raises = None, sendall_raises = None,
      recv = (\<lambda>k. if k = 0 then Inr (bytes_of ''hello'') else Inl SocketTimeout),
      start_time = 0,
      clock = (\<lambda>k. if k = 0 then 0 else 10 * real k - 99 / 10)\<rparr>"

definition stalled_server :: env where
  "stalled_server =
     \<lparr>str_lower = ascii_lower, str_to_int = int_of_digits,
      request = (\<lambda>n h p sel.
        if sel = [] then (menu_line ''0File'' ''/f'' ''host'' ''70'', 1)
        else if sel = str_of ''/f'' then
          (case send_gopher_request stalled_peer 10 (10 * 1024 * 1024) 30 of
             Some data \<Rightarrow> (data, 202 / 10)
           | None \<Rightarrow> ([], 0))
        else ([], 1)),
      connect = (\<lambda>n h p. False)\<rparr>"

section \<open>The transport of gopher_client_05.py\<close>

text \<open>
  \<open>send_gopher_request\<close> of the fifth draft has no timeout, no size limit, no
  time limit and no exception handler: it reads until the peer closes, and an
  exception leaves the function.
\<close>

partial_function (option) recv_loop_05 ::
  "connection \<Rightarrow> nat \<Rightarrow> pybytes \<Rightarrow> (py_error + pybytes) option" where
  "recv_loop_05 c k data =
     (case recv c k of
        Inl err \<Rightarrow> Some (Inl err)
      | Inr chunk \<Rightarrow>
          if chunk = [] then Some (Inr data)
          else recv_loop_05 c (Suc k) (data @ chunk))"

definition send_gopher_request_05 :: "connection \<Rightarrow> (py_error + pybytes) option" where
  "send_gopher_request_05 c =
     (case connect_raises c of
        Some err \<Rightarrow> Some (Inl err)
      | None \<Rightarrow>
          (case sendall_raises c of
             Some err \<Rightarrow> Some (Inl err)
           | None \<Rightarrow> recv_loop_05 c 0 []))"

text \<open>
  Two peers: one sends the byte \<open>a\<close> every nine seconds and never closes; the other
  sends \<open>aaaa\<close> at once and closes.
\<close>

definition slow_sender :: connection where
  "slow_sender =
     \<lparr>connect_raises = None, sendall_raises = None, recv = (\<lambda>k. Inr (bytes_of ''a'')),
      start_time = 0, clock = (\<lambda>k. 9 * real k)\<rparr>"

definition closing_sender :: connection where
  "closing_sender =
     \<lparr>connect_raises = None, sendall_raises = None,
      recv = (\<lambda>k. if k = 0 then Inr (bytes_of ''aaaa'') else Inr []),
      start_time = 0, clock = (\<lambda>k. real k)\<rparr>"

text \<open>
  A peer that sends \<open>hi\<close> and then resets the connection: the second \<open>recv\<close> raises
  a socket error.
\<close>

definition resetting_peer :: connection where
  "resetting_peer =
     \<lparr>connect_raises = None, sendall_raises = None,
      recv = (\<lambda>k. if k = 0 then Inr (bytes_of ''hi'') else Inl SocketError),
      start_time = 0, clock = (\<lambda>k. real k)\<rparr>"

section \<open>The statistics of gopher_client.py\<close>

text \<open>
  The attributes of \<open>GopherClient\<close> that \<open>handle_text\<close>, \<open>handle_binary\<close> and the
  size lines of \<open>print_summary\<close> use. \<open>smallest_binary_size\<close> starts as
  \<open>float('inf')\<close>.
\<close>

record gopher_client =
  gc_text_files :: "(pystr \<times> nat) list"
  gc_binary_files :: "(pystr \<times> nat) list"
  gc_invalid_refs :: "pystr set"
  gc_smallest_text :: "pystr option"
  gc_largest_text_size :: nat
  gc_smallest_binary_size :: enat
  gc_largest_binary_size :: nat

definition gopher_client_init :: gopher_client where
  "gopher_client_init =
     \<lparr>gc_text_files = [], gc_binary_files = [], gc_invalid_refs = {}, gc_smallest_text = None,
      gc_largest_text_size = 0, gc_smallest_binary_size = \<infinity>, gc_largest_binary_size = 0\<rparr>"

text \<open>\<open>len(s.encode())\<close>: the number of bytes of the UTF-8 encoding.\<close>

definition utf8_length :: "pystr \<Rightarrow> nat" where
  "utf8_length s =
     sum_list (map (\<lambda>c. if c < 0x80 then 1 else if c < 0x800 then 2
                          else if c < 0x10000 then 3 else 4) s)"

text \<open>
  \<open>handle_text\<close>, given what \<open>send_request\<close> returned (\<open>None\<close> after an exception).
\<close>

definition handle_text :: "pystr \<Rightarrow> pystr option \<Rightarrow> gopher_client \<Rightarrow> gopher_client" where
  "handle_text sel data g =
     (case data of
        None \<Rightarrow> g
      | Some d \<Rightarrow>
          if d = [] then g
          else
            (let sz = utf8_length d;
                 g1 = g\<lparr>gc_text_files := gc_text_files g @ [(sel, sz)]\<rparr>;
                 g2 = (if (case gc_smallest_text g1 of
                             None \<Rightarrow> True
                           | Some t \<Rightarrow> sz < utf8_length t)
                       then g1\<lparr>gc_smallest_text := Some d\<rparr> else g1)
             in if sz > gc_largest_text_size g2 then g2\<lparr>gc_largest_text_size := sz\<rparr>
                else g2))"

text \<open>
  \<open>handle_binary\<close>, given the bytes its own receive loop collected, or the
  exception it caught.
\<close>

definition handle_binary :: "pystr \<Rightarrow> py_error + pybytes \<Rightarrow> gopher_client \<Rightarrow> gopher_client" where
  "handle_binary sel data g =
     (case data of
        Inl err \<Rightarrow> g\<lparr>gc_invalid_refs := insert sel (gc_invalid_refs g)\<rparr>
      | Inr d \<Rightarrow>
          (let sz = length d;
               g1 = g\<lparr>gc_binary_files := gc_binary_files g @ [(sel, sz)]\<rparr>;
               g2 = (if sz > gc_largest_binary_size g1
                     then g1\<lparr>gc_largest_binary_size := sz\<rparr> else g1)
           in if enat sz < gc_smallest_binary_size g2
              then g2\<lparr>gc_smallest_binary_size := enat sz\<rparr> else g2))"

text \<open>
  The four size lines of \<open>print_summary\<close>. \<open>self.smallest_text[:500]\<close> raises
  \<open>TypeError\<close> when no text file was handled; the three sizes are printed as they
  are.
\<close>

record size_lines =
  smallest_text_content :: pystr
  largest_text_size_line :: nat
  smallest_binary_size_line :: enat
  largest_binary_size_line :: nat

definition print_summary :: "gopher_client \<Rightarrow> py_error + size_lines" where
  "print_summary g =
     (case gc_smallest_text g of
        None \<Rightarrow> Inl TypeError
      | Some t \<Rightarrow>
          Inr \<lparr>smallest_text_content = take 500 t,
               largest_text_size_line = gc_largest_text_size g,
               smallest_binary_size_line = gc_smallest_binary_size g,
               largest_binary_size_line = gc_largest_binary_size g\<rparr>)"

section \<open>Properties of the crawl state and of the loops\<close>

text \<open>
  The state after the pop at the head of an iteration: the queue is cut to
  \<open>max_queue_size\<close> and loses its head, and the counter is increased.
\<close>

definition popped :: "crawl_state \<Rightarrow> crawl_state" where
  "popped st =
     st\<lparr>selectors_to_visit :=
          (if length (selectors_to_visit st) > max_queue_size
           then take (max_queue_size - 1) (tl (selectors_to_visit st))
           else tl (selectors_to_visit st)),
        processed_count := processed_count st + 1\<rparr>"

text \<open>
  The selectors of the requests sent so far; each selector is requested at most
  once, and the requested selectors are the visited ones.
\<close>

definition requested_selectors :: "crawl_state \<Rightarrow> pystr list" where
  "requested_selectors st = map (\<lambda>(h, p, sel). sel) (request_log st)"

definition requests_once :: "crawl_state \<Rightarrow> bool" where
  "requests_once st =
     (distinct (requested_selectors st) \<and> visited_selectors st = set (requested_selectors st))"

text \<open>
  The state after the request of a visit was sent and timed, after the
  problematic-resource test, and after the selector was listed as a directory.
\<close>

definition requested :: "pystr \<Rightarrow> int \<Rightarrow> pystr \<Rightarrow> real \<Rightarrow> crawl_state \<Rightarrow> crawl_state" where
  "requested h p sel duration st =
     st\<lparr>visited_selectors := insert sel (visited_selectors st),
        request_log := request_log st @ [(h, p, sel)],
        download_times := (download_times st)(sel \<mapsto> duration)\<rparr>"

definition flagged :: "bool \<Rightarrow> pystr \<Rightarrow> crawl_state \<Rightarrow> crawl_state" where
  "flagged problematic sel st =
     (if problematic then st\<lparr>problematic_resources := insert sel (problematic_resources st)\<rparr>
      else st)"

definition invalidated :: "pystr \<Rightarrow> crawl_state \<Rightarrow> crawl_state" where
  "invalidated sel st = st\<lparr>invalid_references := insert sel (invalid_references st)\<rparr>"

definition listed :: "pystr \<Rightarrow> crawl_state \<Rightarrow> crawl_state" where
  "listed sel st =
     (if sel \<notin> set (directories st) then st\<lparr>directories := directories st @ [sel]\<rparr> else st)"

text \<open>No selector is classified both as text and as binary.\<close>

definition classified_once :: "crawl_state \<Rightarrow> bool" where
  "classified_once st = (set (text_files st) \<inter> set (binary_files st) = {})"

text \<open>
  From \<open>st\<close> to \<open>st'\<close> the two lists were only appended to: a selector keeps the
  list it is in, and its place there.
\<close>

definition keeps_classes :: "crawl_state \<Rightarrow> crawl_state \<Rightarrow> bool" where
  "keeps_classes st st' =
     (prefix (text_files st) (text_files st') \<and> prefix (binary_files st) (binary_files st'))"

text \<open>
  The keys probed so far are pairwise distinct and are the keys of
  \<open>external_servers\<close>; a probe makes at most one connection attempt.
\<close>

definition probes_once :: "crawl_state \<Rightarrow> bool" where
  "probes_once st =
     (distinct (probe_log st) \<and> dom (external_servers st) = set (probe_log st)
      \<and> length (connect_log st) \<le> length (probe_log st))"

text \<open>The queue and the requests hold only the root's server.\<close>

definition on_root_server :: "env \<Rightarrow> pystr \<Rightarrow> int \<Rightarrow> crawl_state \<Rightarrow> bool" where
  "on_root_server e host0 port0 st =
     ((\<forall>(sel, h, p) \<in> set (selectors_to_visit st). is_same_server (str_lower e) host0 port0 h p)
      \<and> (\<forall>(h, p, sel) \<in> set (request_log st). is_same_server (str_lower e) host0 port0 h p))"

text \<open>
  What \<open>main\<close> has on record about the requests sent so far: the selector of a
  request that returned no bytes is an invalid reference and no problematic
  resource; the selector of a request that returned bytes is a problematic
  resource exactly when \<open>is_problematic_resource\<close> accepts the response; and every
  problematic resource is the selector of a request.
\<close>

definition failures_recorded :: "env \<Rightarrow> crawl_state \<Rightarrow> bool" where
  "failures_recorded e st =
     ((\<forall>i < length (request_log st).
         case request_log st ! i of
           (h, p, sel) \<Rightarrow>
             (fst (request e i h p sel) = [] \<longrightarrow>
                sel \<in> invalid_references st \<and> sel \<notin> problematic_resources st)
             \<and> (fst (request e i h p sel) \<noteq> [] \<longrightarrow>
                  (sel \<in> problematic_resources st
                   \<longleftrightarrow> is_problematic_resource (str_lower e) sel
                         (length (fst (request e i h p sel))) (snd (request e i h p sel)))))
      \<and> problematic_resources st \<subseteq> set (requested_selectors st))"

text \<open>
  From \<open>st\<close> to \<open>st'\<close> no request was sent, no invalid reference was forgotten and the
  problematic resources are the same.
\<close>

definition grows :: "crawl_state \<Rightarrow> crawl_state \<Rightarrow> bool" where
  "grows st st' =
     (request_log st' = request_log st
      \<and> invalid_references st \<subseteq> invalid_references st'
      \<and> problematic_resources st' = problematic_resources st)"

text \<open>
  What the extremes loop has established after the files in \<open>S\<close>: a smallest file
  is set exactly when some file of \<open>S\<close> has a size, it is one of them and the
  smallest size is its (finite) size and a lower bound; likewise the largest.
\<close>

definition extremes_of :: "(pystr \<rightharpoonup> nat) \<Rightarrow> pystr set \<Rightarrow> extremes \<Rightarrow> bool" where
  "extremes_of sizes S x =
     ((case smallest_file x of
         None \<Rightarrow> smallest_size x = \<infinity> \<and> (\<forall>f \<in> S. sizes f = None)
       | Some f \<Rightarrow> f \<in> S \<and> (\<exists>n. sizes f = Some n \<and> smallest_size x = enat n))
      \<and> (\<forall>g \<in> S. \<forall>m. sizes g = Some m \<longrightarrow> smallest_size x \<le> enat m)
      \<and> (case largest_file x of
            None \<Rightarrow> largest_size x = 0
          | Some f \<Rightarrow> f \<in> S \<and> sizes f = Some (largest_size x))
      \<and> (\<forall>g \<in> S. \<forall>m. sizes g = Some m \<longrightarrow> m \<le> largest_size x))"

text \<open>
  The bytes that may still be added plus the timeouts that still fit into the
  time limit.
\<close>

definition budget :: "connection \<Rightarrow> real \<Rightarrow> nat \<Rightarrow> real \<Rightarrow> nat \<Rightarrow> pybytes \<Rightarrow> nat" where
  "budget c timeout max_data_size max_time k data =
     (Suc max_data_size - length data)
     + nat (\<lfloor>(start_time c + max_time - clock c k) / timeout\<rfloor> + 1)"

section \<open>The classifier's order of decisions\<close>

lemma strict_fails_on_0x89:
  "decode_utf8_strict (0x89 # bs) = Inl UnicodeDecodeError"
  by (simp add: decode_utf8_strict_def)

lemma is_text_file_flat:
  "is_text_file data n =
     (data \<noteq> [] \<and> (decode_utf8_strict (take n data) \<noteq> Inl UnicodeDecodeError
        \<or> mostly_printable (take n data) \<or> \<not> has_binary_signature data))"
  by (auto simp: is_text_file_def decode_utf8_strict_def Let_def split: sum.splits)

text \<open>
  C1 (as the code has it). \<open>is_text_file\<close> on the default sample of 4096 bytes:
  empty data are binary; data whose sample decodes as strict UTF-8 are text;
  otherwise a sample with more than 0.8 printable-or-whitespace characters is text
  before any signature is looked at; only then a signature (ZIP, PNG, GIF, BMP,
  JPEG, PDF) makes the data binary, and data without a signature are text. So data
  beginning with \<open>\x89PNG\<close> are text exactly when their sample is mostly printable.
\<close>

theorem is_text_file_decision_order:
  "is_text_file [] 4096 = False
   \<and> (data \<noteq> [] \<and> decode_utf8_strict (take 4096 data) \<noteq> Inl UnicodeDecodeError
        \<longrightarrow> is_text_file data 4096)
   \<and> (decode_utf8_strict (take 4096 data) = Inl UnicodeDecodeError
        \<and> mostly_printable (take 4096 data) \<longrightarrow> is_text_file data 4096)
   \<and> (decode_utf8_strict (take 4096 data) = Inl UnicodeDecodeError
        \<and> \<not> mostly_printable (take 4096 data)
        \<longrightarrow> is_text_file data 4096 = (\<not> has_binary_signature data))
   \<and> (take 4 data = 0x89 # bytes_of ''PNG''
        \<longrightarrow> is_text_file data 4096 = mostly_printable (take 4096 data))"
proof -
  have png: "is_text_file data 4096 = mostly_printable (take 4096 data)"
    if h: "take 4 data = 0x89 # bytes_of ''PNG''"
  proof -
    from h obtain bs where d: "data = 0x89 # bs"
      by (cases data) auto
    have sig: "has_binary_signature data"
      using h by (simp add: has_binary_signature_def)
    have "decode_utf8_strict (take 4096 data) = Inl UnicodeDecodeError"
      unfolding d by (simp add: take_Cons' strict_fails_on_0x89)
    then show ?thesis
      using sig d by (simp add: is_text_file_flat)
  qed
  have empty: "is_text_file [] 4096 = False"
    by (simp add: is_text_file_def)
  have mp: "mostly_printable (take 4096 data) \<Longrightarrow> data \<noteq> []"
    by (auto simp: mostly_printable_def)
  have nil: "decode_utf8_strict [] = Inr []"
    by (simp add: decode_utf8_strict_def)
  show ?thesis
    using png empty mp nil by (auto simp: is_text_file_flat)
qed

text \<open>
  A PNG header followed by sixteen letters: 19 of the 20 bytes are printable, and
  the data are classified as text.
\<close>

theorem is_text_file_decision_order_witness:
  "take 4 (0x89 # bytes_of ''PNGaaaaaaaaaaaaaaaa'') = 0x89 # bytes_of ''PNG''
   \<and> mostly_printable (take 4096 (0x89 # bytes_of ''PNGaaaaaaaaaaaaaaaa''))
   \<and> is_text_file (0x89 # bytes_of ''PNGaaaaaaaaaaaaaaaa'') 4096"
  using is_text_file_decision_order [of "0x89 # bytes_of ''PNGaaaaaaaaaaaaaaaa''"]
  by (simp add: bytes_of_def mostly_printable_def printable_chars_def decode_latin1_def
      isprintable_latin1_def isspace_def)

theorem png_with_printable_body_is_text:
  "has_binary_signature (0x89 # bytes_of ''PNGaaaaaaaaaaaaaaaa'')
   \<and> is_text_file (0x89 # bytes_of ''PNGaaaaaaaaaaaaaaaa'') 4096 = True"
  by (simp add: is_text_file_def decode_utf8_strict_def bytes_of_def mostly_printable_def
      printable_chars_def decode_latin1_def isprintable_latin1_def isspace_def
      has_binary_signature_def)

text \<open>
  A short sample that is neither UTF-8 nor mostly printable and has no signature
  falls to the last line of the function, which answers text.
\<close>

lemma short_ambiguous_sample_is_text:
  "is_text_file [0x80] 4096 = True"
  by (simp add: is_text_file_def decode_utf8_strict_def bytes_of_def mostly_printable_def
      printable_chars_def decode_latin1_def isprintable_latin1_def isspace_def
      has_binary_signature_def)

section \<open>The menu parser\<close>

lemmas run_parser =
  parse_gopher_menu_def parse_menu_lines_def menu_line_items_def parse_port_def
  int_of_digits_def decode_utf8_replace_def bytes_of_def str_of_def menu_line_def

lemma parse_menu_lines_append:
  "parse_menu_lines to_int (xs @ ys) = parse_menu_lines to_int xs @ parse_menu_lines to_int ys"
  by (simp add: parse_menu_lines_def)

lemma parse_menu_lines_Nil:
  "parse_menu_lines to_int [] = []"
  by (simp add: parse_menu_lines_def)

lemma parse_menu_lines_Cons:
  "parse_menu_lines to_int (l # ls) = menu_line_items to_int l @ parse_menu_lines to_int ls"
  by (simp add: parse_menu_lines_def)

text \<open>
  C7 (as the code has it). A line that is empty or equal to \<open>.\<close> is skipped and
  the loop goes on: the entries are those of the lines before it followed by those
  of the lines after it. Every line of the response contributes its entries
  wherever it stands, so a response without a terminator is parsed in full, and
  a final \<open>.\<close> line changes nothing.
\<close>

theorem terminator_line_is_skipped:
  "(l = [] \<or> l = str_of ''.'' \<longrightarrow>
      parse_menu_lines to_int (before @ l # after)
        = parse_menu_lines to_int before @ parse_menu_lines to_int after)
   \<and> (l \<in> set lines \<longrightarrow>
        set (menu_line_items to_int l) \<subseteq> set (parse_menu_lines to_int lines))
   \<and> parse_menu_lines to_int (lines @ [str_of ''.'']) = parse_menu_lines to_int lines
   \<and> parse_gopher_menu to_int data
        = parse_menu_lines to_int (py_split [13, 10] (decode_utf8_replace data))"
proof -
  have skip: "menu_line_items to_int l = []" if "l = [] \<or> l = str_of ''.''"
    using that by (auto simp: menu_line_items_def)
  have dot: "menu_line_items to_int (str_of ''.'') = []"
    by (simp add: menu_line_items_def)
  have mem: "set (menu_line_items to_int l) \<subseteq> set (parse_menu_lines to_int lines)"
    if "l \<in> set lines"
    using that by (auto simp: parse_menu_lines_def)
  show ?thesis
    using skip mem dot
    by (simp add: parse_menu_lines_append parse_menu_lines_Cons parse_menu_lines_Nil
        parse_gopher_menu_def)
qed

theorem terminator_line_is_skipped_witness:
  "parse_menu_lines int_of_digits
     ([str_of ''1A'' @ [9] @ str_of ''/a'' @ [9] @ str_of ''h'' @ [9] @ str_of ''70'']
      @ str_of ''.''
      # [str_of ''1B'' @ [9] @ str_of ''/b'' @ [9] @ str_of ''h'' @ [9] @ str_of ''70''])
   = [\<lparr>item_type = 49, display = str_of ''A'', selector = str_of ''/a'', host = str_of ''h'',
       port = 70\<rparr>,
      \<lparr>item_type = 49, display = str_of ''B'', selector = str_of ''/b'', host = str_of ''h'',
       port = 70\<rparr>]"
  using terminator_line_is_skipped [of "str_of ''.''" int_of_digits
      "[str_of ''1A'' @ [9] @ str_of ''/a'' @ [9] @ str_of ''h'' @ [9] @ str_of ''70'']"
      "[str_of ''1B'' @ [9] @ str_of ''/b'' @ [9] @ str_of ''h'' @ [9] @ str_of ''70'']"]
  by (simp add: run_parser)

text \<open>
  The response \<open>1A<TAB>/a<TAB>h<TAB>70 CRLF . CRLF 1B<TAB>/b<TAB>h<TAB>70 CRLF\<close>: the
  entry of the line after the \<open>.\<close> line is produced.
\<close>

theorem entry_after_terminator_is_parsed:
  "parse_gopher_menu int_of_digits
     (menu_line ''1A'' ''/a'' ''h'' ''70'' @ bytes_of ''.'' @ [13, 10]
      @ menu_line ''1B'' ''/b'' ''h'' ''70'')
   = [\<lparr>item_type = 49, display = str_of ''A'', selector = str_of ''/a'', host = str_of ''h'',
       port = 70\<rparr>,
      \<lparr>item_type = 49, display = str_of ''B'', selector = str_of ''/b'', host = str_of ''h'',
       port = 70\<rparr>]"
  by (simp add: run_parser)

section \<open>The crawl loop: completion and invariants\<close>

lemma crawl_step_Inr:
  "selectors_to_visit st \<noteq> [] \<Longrightarrow> \<exists>st'. crawl_step e st = Inr st'"
  by (cases "selectors_to_visit st")
     (auto simp: crawl_step_def Let_def max_queue_size_def split: list.splits prod.splits)

lemma crawl_loop_Inr:
  "\<exists>st'. crawl_loop e st = Inr st'"
proof (induction e st rule: crawl_loop.induct)
  case (1 e st)
  show ?case
  proof (cases "selectors_to_visit st \<noteq> [] \<and> processed_count st < max_items")
    case True
    then obtain s1 where s1: "crawl_step e st = Inr s1"
      using crawl_step_Inr by blast
    with True "1.IH" [of s1] show ?thesis
      by (simp add: crawl_loop.simps [of e st])
  next
    case False
    then show ?thesis
      by (subst crawl_loop.simps) auto
  qed
qed

lemma crawl_loop_invariant:
  assumes "crawl_loop e st = Inr st'"
    and "P st"
    and "\<And>s s'. P s \<Longrightarrow> selectors_to_visit s \<noteq> [] \<Longrightarrow> processed_count s < max_items
           \<Longrightarrow> crawl_step e s = Inr s' \<Longrightarrow> P s'"
  shows "P st'"
  using assms
proof (induction e st rule: crawl_loop.induct)
  case (1 e st)
  show ?case
  proof (cases "selectors_to_visit st \<noteq> [] \<and> processed_count st < max_items")
    case True
    then obtain s1 where s1: "crawl_step e st = Inr s1"
      using crawl_step_Inr by blast
    have "P s1"
      using "1.prems"(3) [of st s1] "1.prems"(2) True s1 by simp
    moreover have "crawl_loop e s1 = Inr st'"
      using "1.prems"(1) True s1 by (simp add: crawl_loop.simps [of e st])
    ultimately show ?thesis
      using "1.IH" [of s1] True s1 "1.prems"(3) by simp
  next
    case False
    then have "crawl_loop e st = Inr st"
      by (subst crawl_loop.simps) auto
    then show ?thesis
      using "1.prems" by simp
  qed
qed

lemma crawl_reachable:
  "crawl e host0 port0 = Inr st \<Longrightarrow> reachable e host0 port0 st"
  unfolding crawl_def
  by (erule crawl_loop_invariant) (auto intro: reachable.intros)

text \<open>What a menu item and a file leave unchanged.\<close>

lemma fold_process_item_frame:
  assumes "\<And>it s. f (process_item e h p it s) = f s"
  shows "f (fold (process_item e h p) its st) = f st"
  by (induction its arbitrary: st) (simp_all add: assms)

lemma process_item_request_log [simp]:
  "request_log (process_item e h p it st) = request_log st"
  by (simp add: process_item_def Let_def split: prod.splits)

lemma process_item_visited [simp]:
  "visited_selectors (process_item e h p it st) = visited_selectors st"
  by (simp add: process_item_def Let_def split: prod.splits)

lemma process_file_request_log [simp]:
  "request_log (process_file sel r st) = request_log st"
  by (simp add: process_file_def Let_def)

lemma process_file_visited [simp]:
  "visited_selectors (process_file sel r st) = visited_selectors st"
  by (simp add: process_file_def Let_def)

lemma visit_request_log:
  "request_log (visit e sel h p st) = request_log st @ [(h, p, sel)]"
  by (simp add: visit_def Let_def fold_process_item_frame split: prod.splits)

lemma visit_visited:
  "visited_selectors (visit e sel h p st) = insert sel (visited_selectors st)"
  by (simp add: visit_def Let_def fold_process_item_frame split: prod.splits)

lemma crawl_step_eq:
  assumes "selectors_to_visit st = (sel, h, p) # others"
  shows "crawl_step e st
           = Inr (if sel \<in> visited_selectors st then popped st else visit e sel h p (popped st))"
  using assms
  by (simp add: crawl_step_def popped_def Let_def max_queue_size_def take_Cons')

lemma crawl_step_cases:
  assumes "crawl_step e st = Inr st'" and "selectors_to_visit st \<noteq> []"
  shows "(\<exists>sel h p others. selectors_to_visit st = (sel, h, p) # others
            \<and> sel \<in> visited_selectors st \<and> st' = popped st)
         \<or> (\<exists>sel h p others. selectors_to_visit st = (sel, h, p) # others
            \<and> sel \<notin> visited_selectors st \<and> st' = visit e sel h p (popped st))"
proof -
  from assms(2) obtain sel h p others where q: "selectors_to_visit st = (sel, h, p) # others"
    by (cases "selectors_to_visit st") auto
  show ?thesis
    using assms(1) q crawl_step_eq [OF q, of e] by (cases "sel \<in> visited_selectors st") auto
qed

lemma popped_simps [simp]:
  "visited_selectors (popped st) = visited_selectors st"
  "request_log (popped st) = request_log st"
  "probe_log (popped st) = probe_log st"
  "connect_log (popped st) = connect_log st"
  "external_servers (popped st) = external_servers st"
  "text_files (popped st) = text_files st"
  "binary_files (popped st) = binary_files st"
  "invalid_references (popped st) = invalid_references st"
  "problematic_resources (popped st) = problematic_resources st"
  "directories (popped st) = directories st"
  "file_sizes (popped st) = file_sizes st"
  by (simp_all add: popped_def)

lemma requested_selectors_popped [simp]:
  "requested_selectors (popped st) = requested_selectors st"
  by (simp add: requested_selectors_def)

lemma requested_selectors_visit [simp]:
  "requested_selectors (visit e sel h p st) = requested_selectors st @ [sel]"
  by (simp add: requested_selectors_def visit_request_log)

lemma requests_once_step:
  assumes "requests_once st" and "selectors_to_visit st \<noteq> []" and "crawl_step e st = Inr st'"
  shows "requests_once st'"
  using crawl_step_cases [OF assms(3,2)] assms(1)
  by (auto simp: requests_once_def visit_visited)

lemma requests_once_initial: "requests_once (initial_state h p)"
  by (simp add: requests_once_def requested_selectors_def initial_state_def)

lemma reachable_requests_once:
  "reachable e host0 port0 st \<Longrightarrow> requests_once st"
  by (induction rule: reachable.induct) (auto intro: requests_once_initial requests_once_step)

lemmas run_crawl =
  crawl_def initial_state_def crawl_loop.simps crawl_step_def visit_def process_item_def
  process_file_def max_items_def max_queue_size_def Let_def is_problematic_resource_def
  problem_keywords_def endswith_slash_def is_same_server_def check_external_server_def
  py_strip_def isspace_def ascii_lower_def is_text_file_def decode_utf8_strict_def

text \<open>
  C4. An iteration that pops a selector already in \<open>visited_selectors\<close> leaves the
  set and the list of requests as they were. Every crawl ends, and in every state
  of a crawl the selectors of the requests sent so far are pairwise distinct and
  are exactly the visited selectors: \<open>send_gopher_request\<close> is called at most once
  per selector.
\<close>

theorem selector_requested_at_most_once:
  "(selectors_to_visit st = (sel, h, p) # others \<and> sel \<in> visited_selectors st \<longrightarrow>
      (\<exists>st'. crawl_step e st = Inr st' \<and> visited_selectors st' = visited_selectors st
         \<and> request_log st' = request_log st))
   \<and> (reachable e host0 port0 st1 \<longrightarrow>
        distinct (requested_selectors st1)
        \<and> set (requested_selectors st1) = visited_selectors st1)
   \<and> (\<exists>st2. crawl e host0 port0 = Inr st2 \<and> distinct (requested_selectors st2)
         \<and> set (requested_selectors st2) = visited_selectors st2)"
proof -
  have a: "\<exists>st'. crawl_step e st = Inr st' \<and> visited_selectors st' = visited_selectors st
         \<and> request_log st' = request_log st"
    if "selectors_to_visit st = (sel, h, p) # others" "sel \<in> visited_selectors st"
    using that by (simp add: crawl_step_eq)
  have b: "distinct (requested_selectors s) \<and> set (requested_selectors s) = visited_selectors s"
    if "reachable e host0 port0 s" for s
    using reachable_requests_once [OF that] by (simp add: requests_once_def)
  obtain st2 where c: "crawl e host0 port0 = Inr st2"
    using crawl_loop_Inr [of e "initial_state host0 port0"] by (auto simp: crawl_def)
  show ?thesis
    using a b [of st1] b [OF crawl_reachable [OF c]] c by blast
qed

lemma small_server_run:
  "\<exists>st. crawl small_server (str_of ''host'') 70 = Inr st
      \<and> requested_selectors st = [[], str_of ''/f'']
      \<and> processed_count st = 3"
  by (simp add: run_crawl run_parser small_server_def requested_selectors_def)

text \<open>
  On \<open>small_server\<close> the root menu lists the root again: three selectors are
  popped and two requests are sent.
\<close>

theorem selector_requested_at_most_once_witness:
  "\<exists>st. crawl small_server (str_of ''host'') 70 = Inr st
      \<and> requested_selectors st = [[], str_of ''/f'']
      \<and> processed_count st = 3
      \<and> distinct (requested_selectors st)
      \<and> set (requested_selectors st) = visited_selectors st"
proof -
  obtain st where st: "crawl small_server (str_of ''host'') 70 = Inr st"
    "requested_selectors st = [[], str_of ''/f'']" "processed_count st = 3"
    using small_server_run by blast
  obtain st2 where st2: "crawl small_server (str_of ''host'') 70 = Inr st2"
    "distinct (requested_selectors st2)" "set (requested_selectors st2) = visited_selectors st2"
    using selector_requested_at_most_once [where e = small_server and ?host0.0 = "str_of ''host''"
        and ?port0.0 = 70]
    by blast
  from st(1) st2(1) have "st2 = st" by simp
  with st st2 show ?thesis by blast
qed

section \<open>The parts of one visit\<close>

lemma visit_eq:
  assumes "request e (length (request_log st)) h p sel = (response, duration)"
  shows "visit e sel h p st =
     (if response = [] then invalidated sel (requested h p sel duration st)
      else if parse_gopher_menu (str_to_int e) response \<noteq> [] \<or> sel = [] \<or> endswith_slash sel
      then fold (process_item e h p) (parse_gopher_menu (str_to_int e) response)
             (listed sel
                (flagged (is_problematic_resource (str_lower e) sel (length response) duration)
                   sel (requested h p sel duration st)))
      else process_file sel response
             (flagged (is_problematic_resource (str_lower e) sel (length response) duration)
                sel (requested h p sel duration st)))"
  using assms
  by (simp add: visit_def Let_def requested_def flagged_def listed_def invalidated_def)

lemma requested_fields [simp]:
  "text_files (requested h p sel d st) = text_files st"
  "binary_files (requested h p sel d st) = binary_files st"
  "external_servers (requested h p sel d st) = external_servers st"
  "probe_log (requested h p sel d st) = probe_log st"
  "connect_log (requested h p sel d st) = connect_log st"
  "selectors_to_visit (requested h p sel d st) = selectors_to_visit st"
  "invalid_references (requested h p sel d st) = invalid_references st"
  "problematic_resources (requested h p sel d st) = problematic_resources st"
  "file_sizes (requested h p sel d st) = file_sizes st"
  "directories (requested h p sel d st) = directories st"
  "request_log (requested h p sel d st) = request_log st @ [(h, p, sel)]"
  "visited_selectors (requested h p sel d st) = insert sel (visited_selectors st)"
  by (simp_all add: requested_def)

lemma flagged_fields [simp]:
  "text_files (flagged b sel st) = text_files st"
  "binary_files (flagged b sel st) = binary_files st"
  "external_servers (flagged b sel st) = external_servers st"
  "probe_log (flagged b sel st) = probe_log st"
  "connect_log (flagged b sel st) = connect_log st"
  "selectors_to_visit (flagged b sel st) = selectors_to_visit st"
  "invalid_references (flagged b sel st) = invalid_references st"
  "file_sizes (flagged b sel st) = file_sizes st"
  "directories (flagged b sel st) = directories st"
  "request_log (flagged b sel st) = request_log st"
  "visited_selectors (flagged b sel st) = visited_selectors st"
  "problematic_resources (flagged b sel st)
     = (if b then insert sel (problematic_resources st) else problematic_resources st)"
  by (simp_all add: flagged_def)

lemma invalidated_fields [simp]:
  "text_files (invalidated sel st) = text_files st"
  "binary_files (invalidated sel st) = binary_files st"
  "external_servers (invalidated sel st) = external_servers st"
  "probe_log (invalidated sel st) = probe_log st"
  "connect_log (invalidated sel st) = connect_log st"
  "selectors_to_visit (invalidated sel st) = selectors_to_visit st"
  "problematic_resources (invalidated sel st) = problematic_resources st"
  "file_sizes (invalidated sel st) = file_sizes st"
  "directories (invalidated sel st) = directories st"
  "request_log (invalidated sel st) = request_log st"
  "visited_selectors (invalidated sel st) = visited_selectors st"
  "invalid_references (invalidated sel st) = insert sel (invalid_references st)"
  by (simp_all add: invalidated_def)

lemma listed_fields [simp]:
  "text_files (listed sel st) = text_files st"
  "binary_files (listed sel st) = binary_files st"
  "external_servers (listed sel st) = external_servers st"
  "probe_log (listed sel st) = probe_log st"
  "connect_log (listed sel st) = connect_log st"
  "selectors_to_visit (listed sel st) = selectors_to_visit st"
  "invalid_references (listed sel st) = invalid_references st"
  "problematic_resources (listed sel st) = problematic_resources st"
  "file_sizes (listed sel st) = file_sizes st"
  "request_log (listed sel st) = request_log st"
  "visited_selectors (listed sel st) = visited_selectors st"
  by (simp_all add: listed_def)

text \<open>
  A property of the state that the bookkeeping of a visit keeps, and that menu
  items and files keep, is kept by the visit.
\<close>

lemma visit_preserves:
  assumes "\<And>d. P (requested h p sel d st)"
    and "\<And>s. P s \<Longrightarrow> P (invalidated sel s)"
    and "\<And>s b. P s \<Longrightarrow> P (flagged b sel s)"
    and "\<And>s. P s \<Longrightarrow> P (listed sel s)"
    and "\<And>s it. P s \<Longrightarrow> P (process_item e h p it s)"
    and "\<And>s r. P s \<Longrightarrow> P (process_file sel r s)"
  shows "P (visit e sel h p st)"
proof -
  obtain response duration where
    r: "request e (length (request_log st)) h p sel = (response, duration)"
    by (cases "request e (length (request_log st)) h p sel") auto
  have f: "P (fold (process_item e h p) its s)" if "P s" for its s
    using that by (induction its arbitrary: s) (simp_all add: assms(5))
  let ?fl = "flagged (is_problematic_resource (str_lower e) sel (length response) duration)
               sel (requested h p sel duration st)"
  have fl: "P ?fl"
    by (rule assms(3) [OF assms(1)])
  show ?thesis
  proof (cases "response = []")
    case True
    then have "visit e sel h p st = invalidated sel (requested h p sel duration st)"
      by (simp add: visit_eq [OF r])
    then show ?thesis
      using assms(2) [OF assms(1)] by simp
  next
    case False
    show ?thesis
    proof (cases "parse_gopher_menu (str_to_int e) response \<noteq> [] \<or> sel = []
                    \<or> endswith_slash sel")
      case True
      then have "visit e sel h p st
                   = fold (process_item e h p) (parse_gopher_menu (str_to_int e) response)
                       (listed sel ?fl)"
        using False by (simp add: visit_eq [OF r])
      then show ?thesis
        using f [OF assms(4) [OF fl]] by simp
    next
      case dir: False
      then have "visit e sel h p st = process_file sel response ?fl"
        using False by (simp add: visit_eq [OF r])
      then show ?thesis
        using assms(6) [OF fl] by simp
    qed
  qed
qed

section \<open>Text and binary lists stay disjoint\<close>

lemma process_item_classified_once:
  "classified_once st \<Longrightarrow> classified_once (process_item e h p it st)"
  by (auto simp: process_item_def classified_once_def Let_def split: prod.splits)

lemma fold_process_item_classified_once:
  "classified_once st \<Longrightarrow> classified_once (fold (process_item e h p) its st)"
  by (induction its arbitrary: st) (simp_all add: process_item_classified_once)

lemma process_file_classified_once:
  "classified_once st \<Longrightarrow> classified_once (process_file sel response st)"
  by (auto simp: process_file_def classified_once_def Let_def)

lemma visit_classified_once:
  assumes "classified_once st"
  shows "classified_once (visit e sel h p st)"
proof (rule visit_preserves)
  show "classified_once (requested h p sel d st)" for d
    using assms by (simp add: classified_once_def)
qed (simp_all add: classified_once_def
      process_item_classified_once [unfolded classified_once_def]
      process_file_classified_once [unfolded classified_once_def])

lemma crawl_step_classified_once:
  assumes "classified_once st" and "selectors_to_visit st \<noteq> []" and "crawl_step e st = Inr st'"
  shows "classified_once st'"
proof -
  have "classified_once (popped st)"
    using assms(1) by (simp add: classified_once_def)
  then show ?thesis
    using crawl_step_cases [OF assms(3,2)] by (auto intro: visit_classified_once)
qed

lemma reachable_classified_once:
  "reachable e host0 port0 st \<Longrightarrow> classified_once st"
proof (induction rule: reachable.induct)
  case start
  show ?case by (simp add: classified_once_def initial_state_def)
next
  case (iterate st st')
  then show ?case by (auto intro: crawl_step_classified_once)
qed

lemma keeps_classes_refl: "keeps_classes st st"
  by (simp add: keeps_classes_def)

lemma keeps_classes_trans:
  "keeps_classes a b \<Longrightarrow> keeps_classes b c \<Longrightarrow> keeps_classes a c"
  by (auto simp: keeps_classes_def)

lemma process_item_keeps_classes: "keeps_classes st (process_item e h p it st)"
  by (auto simp: keeps_classes_def process_item_def Let_def split: prod.splits)

lemma process_file_keeps_classes: "keeps_classes st (process_file sel response st)"
  by (auto simp: keeps_classes_def process_file_def Let_def)

lemma visit_keeps_classes: "keeps_classes st (visit e sel h p st)"
proof (rule visit_preserves)
  show "keeps_classes st (requested h p sel d st)" for d
    by (simp add: keeps_classes_def)
  show "keeps_classes st (invalidated sel s)" if "keeps_classes st s" for s
    using that by (simp add: keeps_classes_def)
  show "keeps_classes st (flagged b sel s)" if "keeps_classes st s" for s b
    using that by (simp add: keeps_classes_def)
  show "keeps_classes st (listed sel s)" if "keeps_classes st s" for s
    using that by (simp add: keeps_classes_def)
  show "keeps_classes st (process_item e h p it s)" if "keeps_classes st s" for s it
    using that process_item_keeps_classes by (rule keeps_classes_trans)
  show "keeps_classes st (process_file sel r s)" if "keeps_classes st s" for s r
    using that process_file_keeps_classes by (rule keeps_classes_trans)
qed

lemma crawl_step_keeps_classes:
  assumes "crawl_step e st = Inr st'"
  shows "keeps_classes st st'"
proof (cases "selectors_to_visit st")
  case Nil
  then show ?thesis
    using assms by (simp add: crawl_step_def max_queue_size_def)
next
  case (Cons a others)
  then have ne: "selectors_to_visit st \<noteq> []"
    by simp
  have pop: "keeps_classes st (popped st)"
    by (simp add: keeps_classes_def)
  from crawl_step_cases [OF assms ne] show ?thesis
  proof (elim disjE exE conjE)
    fix sel h p others
    assume "st' = popped st"
    then show ?thesis using pop by simp
  next
    fix sel h p others
    assume "st' = visit e sel h p (popped st)"
    then show ?thesis
      using keeps_classes_trans [OF pop visit_keeps_classes] by simp
  qed
qed

lemma later_keeps_classes: "later e st st' \<Longrightarrow> keeps_classes st st'"
proof (induction rule: later.induct)
  case now
  show ?case by (rule keeps_classes_refl)
next
  case (iterate st' st'')
  then show ?case
    using keeps_classes_trans crawl_step_keeps_classes by blast
qed

lemma later_reachable:
  "later e st st' \<Longrightarrow> reachable e host0 port0 st \<Longrightarrow> reachable e host0 port0 st'"
  by (induction rule: later.induct) (auto intro: reachable.iterate)

lemma crawl_loop_later: "crawl_loop e st = Inr st' \<Longrightarrow> later e st st'"
  by (erule crawl_loop_invariant) (auto intro: later.intros)

lemma reachable_crawl_loop:
  "reachable e host0 port0 st \<Longrightarrow> crawl_loop e st = crawl e host0 port0"
proof (induction rule: reachable.induct)
  case start
  show ?case by (simp add: crawl_def)
next
  case (iterate st st')
  then show ?case
    by (simp add: crawl_loop.simps [of e st])
qed

lemma small_server_first_step:
  "\<exists>s1. crawl_step small_server (initial_state (str_of ''host'') 70) = Inr s1
      \<and> text_files s1 = [str_of ''/f''] \<and> binary_files s1 = []"
  by (simp add: run_crawl run_parser small_server_def)


text \<open>
  C10. No selector is in both \<open>text_files\<close> and \<open>binary_files\<close>, and a selector
  keeps the list it was put in. Handling a menu item and handling a fetched file
  both keep the two lists disjoint and only append to them. So the lists are
  disjoint in every state of a crawl and in the state the crawl ends in; and from
  a state of a crawl to any later one, the final one included, each list is a
  prefix of what it becomes: a selector listed as text stays listed as text and is
  never listed as binary, and the other way round.
\<close>

theorem text_and_binary_files_disjoint:
  "(set (text_files st) \<inter> set (binary_files st) = {} \<longrightarrow>
      set (text_files (process_item e h p it st))
        \<inter> set (binary_files (process_item e h p it st)) = {}
      \<and> set (text_files (process_file sel response st))
        \<inter> set (binary_files (process_file sel response st)) = {})
   \<and> prefix (text_files st) (text_files (process_item e h p it st))
   \<and> prefix (binary_files st) (binary_files (process_item e h p it st))
   \<and> prefix (text_files st) (text_files (process_file sel response st))
   \<and> prefix (binary_files st) (binary_files (process_file sel response st))
   \<and> (reachable e host0 port0 st1 \<longrightarrow> set (text_files st1) \<inter> set (binary_files st1) = {})
   \<and> (reachable e host0 port0 st1 \<and> later e st1 st3 \<longrightarrow>
        prefix (text_files st1) (text_files st3)
        \<and> prefix (binary_files st1) (binary_files st3)
        \<and> (\<forall>s \<in> set (text_files st1).
              s \<in> set (text_files st3) \<and> s \<notin> set (binary_files st3))
        \<and> (\<forall>s \<in> set (binary_files st1).
              s \<in> set (binary_files st3) \<and> s \<notin> set (text_files st3)))
   \<and> (\<exists>st2. crawl e host0 port0 = Inr st2
         \<and> set (text_files st2) \<inter> set (binary_files st2) = {}
         \<and> (reachable e host0 port0 st1 \<longrightarrow> later e st1 st2))"
proof -
  obtain st2 where c: "crawl e host0 port0 = Inr st2"
    using crawl_loop_Inr [of e "initial_state host0 port0"] by (auto simp: crawl_def)
  have sites: "set (text_files st) \<inter> set (binary_files st) = {} \<longrightarrow>
      set (text_files (process_item e h p it st))
        \<inter> set (binary_files (process_item e h p it st)) = {}
      \<and> set (text_files (process_file sel response st))
        \<inter> set (binary_files (process_file sel response st)) = {}"
    using process_item_classified_once [of st e h p it]
      process_file_classified_once [of st sel response]
    by (simp add: classified_once_def)
  have grow: "prefix (text_files st) (text_files (process_item e h p it st))
   \<and> prefix (binary_files st) (binary_files (process_item e h p it st))
   \<and> prefix (text_files st) (text_files (process_file sel response st))
   \<and> prefix (binary_files st) (binary_files (process_file sel response st))"
    using process_item_keeps_classes [of st e h p it]
      process_file_keeps_classes [of st sel response]
    by (simp add: keeps_classes_def)
  have inv: "set (text_files s) \<inter> set (binary_files s) = {}"
    if "reachable e host0 port0 s" for s
    using reachable_classified_once [OF that] by (simp add: classified_once_def)
  have stay: "prefix (text_files st1) (text_files st3)
        \<and> prefix (binary_files st1) (binary_files st3)
        \<and> (\<forall>s \<in> set (text_files st1).
              s \<in> set (text_files st3) \<and> s \<notin> set (binary_files st3))
        \<and> (\<forall>s \<in> set (binary_files st1).
              s \<in> set (binary_files st3) \<and> s \<notin> set (text_files st3))"
    if r: "reachable e host0 port0 st1" and l: "later e st1 st3"
  proof -
    have k: "prefix (text_files st1) (text_files st3)"
      "prefix (binary_files st1) (binary_files st3)"
      using later_keeps_classes [OF l] by (simp_all add: keeps_classes_def)
    have d: "set (text_files st3) \<inter> set (binary_files st3) = {}"
      using inv [OF later_reachable [OF l r]] .
    have "set (text_files st1) \<subseteq> set (text_files st3)"
      "set (binary_files st1) \<subseteq> set (binary_files st3)"
      using k by (simp_all add: set_mono_prefix)
    then show ?thesis
      using k d by blast
  qed
  have fin: "later e st1 st2" if "reachable e host0 port0 st1"
    using reachable_crawl_loop [OF that] c by (simp add: crawl_loop_later)
  show ?thesis
    using sites grow inv [of st1] stay c inv [OF crawl_reachable [OF c]] fin by blast
qed

text \<open>
  The root menu of \<open>small_server\<close> after the text entry \<open>/f\<close>: a further entry
  that declares \<open>/f\<close> binary is not added to \<open>binary_files\<close>. In the crawl of
  \<open>small_server\<close> the first iteration lists \<open>/f\<close> as text, and in the final state
  \<open>/f\<close> is still the first text file and is no binary file, although the request
  for it came in between.
\<close>

theorem text_and_binary_files_disjoint_witness:
  "set (text_files ((initial_state (str_of ''host'') 70)\<lparr>text_files := [str_of ''/f'']\<rparr>))
     \<inter> set (binary_files ((initial_state (str_of ''host'') 70)\<lparr>text_files := [str_of ''/f'']\<rparr>))
     = {}
   \<and> binary_files (process_item small_server (str_of ''host'') 70
        \<lparr>item_type = 57, display = str_of ''File'', selector = str_of ''/f'',
         host = str_of ''host'', port = 70\<rparr>
        ((initial_state (str_of ''host'') 70)\<lparr>text_files := [str_of ''/f'']\<rparr>)) = []
   \<and> set (text_files (process_item small_server (str_of ''host'') 70
        \<lparr>item_type = 57, display = str_of ''File'', selector = str_of ''/f'',
         host = str_of ''host'', port = 70\<rparr>
        ((initial_state (str_of ''host'') 70)\<lparr>text_files := [str_of ''/f'']\<rparr>)))
     \<inter> set (binary_files (process_item small_server (str_of ''host'') 70
        \<lparr>item_type = 57, display = str_of ''File'', selector = str_of ''/f'',
         host = str_of ''host'', port = 70\<rparr>
        ((initial_state (str_of ''host'') 70)\<lparr>text_files := [str_of ''/f'']\<rparr>))) = {}
   \<and> (\<exists>s1 s2. crawl_step small_server (initial_state (str_of ''host'') 70) = Inr s1
         \<and> reachable small_server (str_of ''host'') 70 s1
         \<and> text_files s1 = [str_of ''/f'']
         \<and> crawl small_server (str_of ''host'') 70 = Inr s2
         \<and> later small_server s1 s2
         \<and> prefix [str_of ''/f''] (text_files s2)
         \<and> str_of ''/f'' \<notin> set (binary_files s2))"
proof -
  let ?st = "(initial_state (str_of ''host'') 70)\<lparr>text_files := [str_of ''/f'']\<rparr>"
  let ?it = "\<lparr>item_type = 57, display = str_of ''File'', selector = str_of ''/f'',
        host = str_of ''host'', port = 70\<rparr>"
  note inst = text_and_binary_files_disjoint
    [where st = "?st" and e = small_server and h = "str_of ''host''" and p = 70 and it = "?it"
       and ?host0.0 = "str_of ''host''" and ?port0.0 = 70]
  have a: "set (text_files ?st) \<inter> set (binary_files ?st) = {}"
    by (simp add: initial_state_def)
  have b: "binary_files (process_item small_server (str_of ''host'') 70 ?it ?st) = []"
    by (simp add: run_crawl small_server_def str_of_def)
  obtain s1 where s1: "crawl_step small_server (initial_state (str_of ''host'') 70) = Inr s1"
    "text_files s1 = [str_of ''/f'']"
    using small_server_first_step by blast
  have r: "reachable small_server (str_of ''host'') 70 s1"
    by (rule reachable.iterate [OF reachable.start _ _ s1(1)])
       (simp_all add: initial_state_def max_items_def)
  obtain s2 where s2: "crawl small_server (str_of ''host'') 70 = Inr s2" "later small_server s1 s2"
    using inst [where ?st1.0 = s1] r by blast
  have "prefix (text_files s1) (text_files s2)
        \<and> (\<forall>s \<in> set (text_files s1). s \<in> set (text_files s2) \<and> s \<notin> set (binary_files s2))"
    using inst [where ?st1.0 = s1 and ?st3.0 = s2] r s2(2) by blast
  moreover have "set (text_files (process_item small_server (str_of ''host'') 70 ?it ?st))
     \<inter> set (binary_files (process_item small_server (str_of ''host'') 70 ?it ?st)) = {}"
    using inst a by blast
  ultimately show ?thesis
    using a b s1 r s2 by auto
qed

section \<open>Entries on other servers and the prober\<close>

lemma check_external_server_attempts:
  "length (snd (check_external_server c h p)) \<le> 1"
  by (simp add: check_external_server_def Let_def)

lemma process_item_probes_once:
  assumes "probes_once st"
  shows "probes_once (process_item e h p it st)"
proof -
  have "length (snd (check_external_server (connect e (length (connect_log st)))
          (host it) (port it))) \<le> 1"
    by (rule check_external_server_attempts)
  then show ?thesis
    using assms
    by (auto simp: process_item_def probes_once_def Let_def split: prod.splits)
qed

lemma process_file_probe_fields [simp]:
  "probe_log (process_file sel r st) = probe_log st"
  "connect_log (process_file sel r st) = connect_log st"
  "external_servers (process_file sel r st) = external_servers st"
  "selectors_to_visit (process_file sel r st) = selectors_to_visit st"
  "invalid_references (process_file sel r st) = invalid_references st"
  "problematic_resources (process_file sel r st) = problematic_resources st"
  by (simp_all add: process_file_def Let_def)

lemma visit_probes_once:
  assumes "probes_once st"
  shows "probes_once (visit e sel h p st)"
proof (rule visit_preserves)
  show "probes_once (requested h p sel d st)" for d
    using assms by (simp add: probes_once_def)
  show "probes_once (invalidated sel s)" if "probes_once s" for s
    using that by (simp add: probes_once_def)
  show "probes_once (flagged b sel s)" if "probes_once s" for s b
    using that by (simp add: probes_once_def)
  show "probes_once (listed sel s)" if "probes_once s" for s
    using that by (simp add: probes_once_def)
  show "probes_once (process_item e h p it s)" if "probes_once s" for s it
    using that by (rule process_item_probes_once)
  show "probes_once (process_file sel r s)" if "probes_once s" for s r
    using that by (simp add: probes_once_def)
qed

lemma reachable_probes_once:
  "reachable e host0 port0 st \<Longrightarrow> probes_once st"
proof (induction rule: reachable.induct)
  case start
  show ?case by (simp add: probes_once_def initial_state_def)
next
  case (iterate st st')
  have pop: "probes_once (popped st)"
    using iterate.IH by (simp add: probes_once_def)
  from crawl_step_cases [OF iterate.hyps(4,2)] show ?case
  proof (elim disjE exE conjE)
    fix sel h p others
    assume "st' = popped st"
    then show ?thesis using pop by simp
  next
    fix sel h p others
    assume "st' = visit e sel h p (popped st)"
    then show ?thesis using pop by (simp only: visit_probes_once)
  qed
qed

text \<open>Only entries on the server of the current connection are queued.\<close>

lemma is_same_server_trans:
  "is_same_server l h1 p1 h2 p2 \<Longrightarrow> is_same_server l h2 p2 h3 p3
     \<Longrightarrow> is_same_server l h1 p1 h3 p3"
  by (simp add: is_same_server_def)

lemma is_same_server_refl: "is_same_server l h p h p"
  by (simp add: is_same_server_def)

lemma process_item_on_root_server:
  assumes "on_root_server e host0 port0 st"
    and "is_same_server (str_lower e) host0 port0 h p"
  shows "on_root_server e host0 port0 (process_item e h p it st)"
  using assms
  by (auto simp: process_item_def on_root_server_def Let_def split: prod.splits
      intro: is_same_server_trans)

lemma visit_on_root_server:
  assumes "on_root_server e host0 port0 st"
    and "is_same_server (str_lower e) host0 port0 h p"
  shows "on_root_server e host0 port0 (visit e sel h p st)"
proof (rule visit_preserves)
  show "on_root_server e host0 port0 (requested h p sel d st)" for d
    using assms by (auto simp: on_root_server_def)
  show "on_root_server e host0 port0 (invalidated sel s)"
    if "on_root_server e host0 port0 s" for s
    using that by (simp add: on_root_server_def)
  show "on_root_server e host0 port0 (flagged b sel s)"
    if "on_root_server e host0 port0 s" for s b
    using that by (simp add: on_root_server_def)
  show "on_root_server e host0 port0 (listed sel s)"
    if "on_root_server e host0 port0 s" for s
    using that by (simp add: on_root_server_def)
  show "on_root_server e host0 port0 (process_item e h p it s)"
    if "on_root_server e host0 port0 s" for s it
    using that assms(2) by (rule process_item_on_root_server)
  show "on_root_server e host0 port0 (process_file sel r s)"
    if "on_root_server e host0 port0 s" for s r
    using that by (simp add: on_root_server_def)
qed

lemma popped_on_root_server:
  assumes "on_root_server e host0 port0 st"
  shows "on_root_server e host0 port0 (popped st)"
proof -
  have "set (selectors_to_visit (popped st)) \<subseteq> set (selectors_to_visit st)"
    by (cases "selectors_to_visit st")
       (auto simp: popped_def dest: in_set_takeD)
  then show ?thesis
    using assms by (auto simp: on_root_server_def)
qed

lemma reachable_on_root_server:
  "reachable e host0 port0 st \<Longrightarrow> on_root_server e host0 port0 st"
proof (induction rule: reachable.induct)
  case start
  show ?case by (simp add: on_root_server_def initial_state_def is_same_server_refl)
next
  case (iterate st st')
  note pop = popped_on_root_server [OF iterate.IH]
  from crawl_step_cases [OF iterate.hyps(4,2)] show ?case
  proof (elim disjE exE conjE)
    fix sel h p others
    assume "st' = popped st"
    then show ?thesis using pop by simp
  next
    fix sel h p others
    assume q: "selectors_to_visit st = (sel, h, p) # others"
      and st': "st' = visit e sel h p (popped st)"
    have "is_same_server (str_lower e) host0 port0 h p"
      using iterate.IH q by (auto simp: on_root_server_def)
    then show ?thesis
      using pop st' by (simp only: visit_on_root_server)
  qed
qed

text \<open>
  C5 (as the code has it). A menu entry on another server than the current
  connection's is never queued and never requested. Unless its selector is longer
  than 255 characters (such an entry is skipped before the server test),
  \<open>check_external_server\<close> is called for its \<open>(host, port)\<close> when the key is not yet
  in \<open>external_servers\<close>, and the answer is stored under the key; an entry whose key
  is stored, or whose selector is too long, changes nothing. In every state of a
  crawl the probed keys are pairwise distinct and are the keys of
  \<open>external_servers\<close>, there are no more connection attempts than probes, and
  every request went to the root's server.
\<close>

theorem external_entry_is_probed_once:
  "(\<not> is_same_server (str_lower e) h p (host it) (port it) \<longrightarrow>
      selectors_to_visit (process_item e h p it st) = selectors_to_visit st
      \<and> request_log (process_item e h p it st) = request_log st
      \<and> (length (selector it) \<le> 255 \<and> external_servers st (host it, port it) = None \<longrightarrow>
            probe_log (process_item e h p it st) = probe_log st @ [(host it, port it)]
            \<and> external_servers (process_item e h p it st) (host it, port it)
                = Some (fst (check_external_server (connect e (length (connect_log st)))
                               (host it) (port it))))
      \<and> (length (selector it) > 255 \<or> external_servers st (host it, port it) \<noteq> None \<longrightarrow>
            process_item e h p it st = st))
   \<and> (reachable e host0 port0 st1 \<longrightarrow>
        distinct (probe_log st1) \<and> dom (external_servers st1) = set (probe_log st1)
        \<and> length (connect_log st1) \<le> length (probe_log st1)
        \<and> (\<forall>(h', p', sel) \<in> set (request_log st1).
              is_same_server (str_lower e) host0 port0 h' p'))"
proof -
  have item: "selectors_to_visit (process_item e h p it st) = selectors_to_visit st
      \<and> (length (selector it) \<le> 255 \<and> external_servers st (host it, port it) = None \<longrightarrow>
            probe_log (process_item e h p it st) = probe_log st @ [(host it, port it)]
            \<and> external_servers (process_item e h p it st) (host it, port it)
                = Some (fst (check_external_server (connect e (length (connect_log st)))
                               (host it) (port it))))
      \<and> (length (selector it) > 255 \<or> external_servers st (host it, port it) \<noteq> None \<longrightarrow>
            process_item e h p it st = st)"
    if "\<not> is_same_server (str_lower e) h p (host it) (port it)"
    using that by (auto simp: process_item_def Let_def split: prod.splits)
  have inv: "distinct (probe_log st1) \<and> dom (external_servers st1) = set (probe_log st1)
        \<and> length (connect_log st1) \<le> length (probe_log st1)
        \<and> (\<forall>(h', p', sel) \<in> set (request_log st1).
              is_same_server (str_lower e) host0 port0 h' p')"
    if "reachable e host0 port0 st1"
    using reachable_probes_once [OF that] reachable_on_root_server [OF that]
    by (simp add: probes_once_def on_root_server_def)
  show ?thesis
    using item inv by simp
qed

text \<open>
  An entry for the directory \<open>/e\<close> on \<open>other:70\<close>, met on \<open>host:70\<close>: it is probed,
  recorded as up, and not queued.
\<close>

theorem external_entry_is_probed_once_witness:
  "\<not> is_same_server (str_lower small_server) (str_of ''host'') 70 (str_of ''other'') 70
   \<and> selectors_to_visit (process_item small_server (str_of ''host'') 70
        \<lparr>item_type = 49, display = str_of ''Ext'', selector = str_of ''/e'',
         host = str_of ''other'', port = 70\<rparr> (initial_state (str_of ''host'') 70))
       = [([], str_of ''host'', 70)]
   \<and> probe_log (process_item small_server (str_of ''host'') 70
        \<lparr>item_type = 49, display = str_of ''Ext'', selector = str_of ''/e'',
         host = str_of ''other'', port = 70\<rparr> (initial_state (str_of ''host'') 70))
       = [(str_of ''other'', 70)]
   \<and> external_servers (process_item small_server (str_of ''host'') 70
        \<lparr>item_type = 49, display = str_of ''Ext'', selector = str_of ''/e'',
         host = str_of ''other'', port = 70\<rparr> (initial_state (str_of ''host'') 70))
        (str_of ''other'', 70) = Some True"
  using external_entry_is_probed_once
    [of small_server "str_of ''host''" 70
      "\<lparr>item_type = 49, display = str_of ''Ext'', selector = str_of ''/e'',
        host = str_of ''other'', port = 70\<rparr>" "initial_state (str_of ''host'') 70"
      "str_of ''host''" 70 "initial_state (str_of ''host'') 70"]
  by (simp add: run_crawl small_server_def str_of_def)

subsection \<open>An entry with a long selector\<close>

lemma utf8_decode_ascii:
  "\<forall>b \<in> set bs. b < 0x80 \<Longrightarrow> utf8_decode bs = map (\<lambda>b. Some (unat b)) bs"
  by (induction bs) simp_all

lemma decode_utf8_replace_ascii:
  "\<forall>b \<in> set bs. b < 0x80 \<Longrightarrow> decode_utf8_replace bs = map unat bs"
  by (simp add: decode_utf8_replace_def utf8_decode_ascii)

lemma py_split_no_sep:
  "c \<notin> set xs \<Longrightarrow> py_split [c] xs = [xs]"
  by (induction xs) simp_all

lemma py_split_single:
  "c \<notin> set xs \<Longrightarrow> py_split [c] (xs @ c # ys) = xs # py_split [c] ys"
  by (induction xs) simp_all

lemma py_split_crlf:
  "13 \<notin> set xs \<Longrightarrow> py_split [13, 10] (xs @ 13 # 10 # ys) = xs # py_split [13, 10] ys"
  by (induction xs) simp_all

lemma long_selector_menu_parsed:
  "parse_gopher_menu int_of_digits long_selector_menu
   = [\<lparr>item_type = 49, display = str_of ''Ext'', selector = replicate 256 97,
       host = str_of ''other'', port = 70\<rparr>]"
proof -
  let ?line = "49 # (str_of ''Ext'' @ 9 # (replicate 256 97 @ 9 # (str_of ''other''
                 @ 9 # str_of ''70'')))"
  have "decode_utf8_replace long_selector_menu = ?line @ 13 # 10 # []"
    unfolding long_selector_menu_def
    by (subst decode_utf8_replace_ascii) (auto simp: bytes_of_def str_of_def)
  moreover have "py_split [13, 10] (?line @ 13 # 10 # []) = [?line, []]"
    by (subst py_split_crlf) (auto simp: str_of_def)
  moreover have "py_split [9] (str_of ''Ext'' @ 9 # (replicate 256 97 @ 9 # (str_of ''other''
                 @ 9 # str_of ''70'')))
        = [str_of ''Ext'', replicate 256 97, str_of ''other'', str_of ''70'']"
    by (simp add: py_split_single py_split_no_sep str_of_def)
  ultimately show ?thesis
    by (simp add: parse_gopher_menu_def parse_menu_lines_def menu_line_items_def
        parse_port_def int_of_digits_def) (simp add: str_of_def)
qed

lemma long_selector_menu_length:
  "length long_selector_menu = 272" "long_selector_menu \<noteq> []"
  by (simp_all add: long_selector_menu_def bytes_of_def)

text \<open>
  The crawl of \<open>long_selector_server\<close>: the only entry of the root menu is on
  another server, and no probe is made for it: \<open>check_external_server\<close> is never
  called and \<open>external_servers\<close> stays empty.
\<close>

theorem long_selector_entry_is_not_probed:
  "\<not> is_same_server (str_lower long_selector_server) (str_of ''host'') 70 (str_of ''other'') 70
   \<and> (\<exists>st. crawl long_selector_server (str_of ''host'') 70 = Inr st
         \<and> request_log st = [(str_of ''host'', 70, [])]
         \<and> probe_log st = [] \<and> connect_log st = []
         \<and> external_servers st (str_of ''other'', 70) = None)"
  by (simp add: crawl_def initial_state_def crawl_loop.simps crawl_step_def visit_def
      process_item_def max_items_def max_queue_size_def Let_def is_problematic_resource_def
      problem_keywords_def is_same_server_def py_strip_def isspace_def ascii_lower_def
      long_selector_server_def long_selector_menu_parsed long_selector_menu_length str_of_def)

section \<open>The prober and hosts with unusual characters\<close>

text \<open>
  C8 (as the code has it). \<open>check_external_server\<close> strips the host; when the
  stripped host is empty or has a character below \<open>' '\<close> or above \<open>'~'\<close> it
  returns \<open>False\<close> without any connection attempt, whatever the network would
  answer, and that \<open>False\<close> is what the crawl stores under the key. Otherwise it
  makes one attempt, to the stripped host, and returns its outcome.
\<close>

theorem unusual_host_is_not_connected:
  "(py_strip host0 = [] \<or> (\<exists>c \<in> set (py_strip host0). c < 32 \<or> c > 126) \<longrightarrow>
      check_external_server connect_ok host0 port0 = (False, []))
   \<and> (py_strip host0 \<noteq> [] \<and> (\<forall>c \<in> set (py_strip host0). 32 \<le> c \<and> c \<le> 126) \<longrightarrow>
        check_external_server connect_ok host0 port0
          = (connect_ok (py_strip host0) port0, [(py_strip host0, port0)]))
   \<and> ((py_strip (host it) = [] \<or> (\<exists>c \<in> set (py_strip (host it)). c < 32 \<or> c > 126))
        \<and> \<not> is_same_server (str_lower e) h p (host it) (port it)
        \<and> length (selector it) \<le> 255 \<and> external_servers st (host it, port it) = None \<longrightarrow>
        external_servers (process_item e h p it st) (host it, port it) = Some False
        \<and> connect_log (process_item e h p it st) = connect_log st)"
proof -
  have a: "check_external_server c host0 port0 = (False, [])"
    if "py_strip host0 = [] \<or> (\<exists>c \<in> set (py_strip host0). c < 32 \<or> c > 126)"
    for c host0 port0
    using that by (auto simp: check_external_server_def Let_def)
  have b: "check_external_server connect_ok host0 port0
          = (connect_ok (py_strip host0) port0, [(py_strip host0, port0)])"
    if "py_strip host0 \<noteq> [] \<and> (\<forall>c \<in> set (py_strip host0). 32 \<le> c \<and> c \<le> 126)"
    using that by (auto simp: check_external_server_def Let_def not_less)
  have c: "external_servers (process_item e h p it st) (host it, port it) = Some False
        \<and> connect_log (process_item e h p it st) = connect_log st"
    if "py_strip (host it) = [] \<or> (\<exists>c \<in> set (py_strip (host it)). c < 32 \<or> c > 126)"
      "\<not> is_same_server (str_lower e) h p (host it) (port it)"
      "length (selector it) \<le> 255" "external_servers st (host it, port it) = None"
    using that(2-4) a [OF that(1)] by (simp add: process_item_def Let_def)
  show ?thesis
    using a [of host0 connect_ok port0] b c by blast
qed

text \<open>
  The host \<open>ex<BEL>ample\<close> on a network where every connection succeeds: no
  attempt is made and the answer is \<open>False\<close>; the host \<open>example<TAB>\<close> is stripped
  and connected to.
\<close>

theorem unusual_host_is_not_connected_witness:
  "(\<exists>c \<in> set (py_strip (str_of ''ex'' @ [7] @ str_of ''ample'')). c < 32 \<or> c > 126)
   \<and> check_external_server (\<lambda>h p. True) (str_of ''ex'' @ [7] @ str_of ''ample'') 70 = (False, [])
   \<and> check_external_server (\<lambda>h p. True) (str_of ''example'' @ [9]) 70
        = (True, [(str_of ''example'', 70)])"
  using unusual_host_is_not_connected
    [of "str_of ''ex'' @ [7] @ str_of ''ample''" "\<lambda>h p. True" 70]
  by (simp add: check_external_server_def py_strip_def isspace_def str_of_def)

theorem host_with_control_character_is_never_tried:
  "check_external_server (\<lambda>h p. True) (str_of ''ex'' @ [7] @ str_of ''ample'') 70 = (False, [])
   \<and> check_external_server (\<lambda>h p. True) [233] 70 = (False, [])
   \<and> check_external_server (\<lambda>h p. True) (str_of ''example'') 70
        = (True, [(str_of ''example'', 70)])"
  by (simp add: check_external_server_def py_strip_def isspace_def str_of_def)

section \<open>Malformed menu lines\<close>




section \<open>Size extremes\<close>

lemma extremes_step_of:
  assumes "extremes_of sizes S x"
  shows "extremes_of sizes (insert file S) (extremes_step sizes file x)"
proof (cases "sizes file")
  case None
  then show ?thesis
    using assms by (auto simp: extremes_of_def extremes_step_def split: option.splits)
next
  case (Some sz)
  then show ?thesis
    using assms
    by (auto simp: extremes_of_def extremes_step_def Let_def split: option.splits
        intro: order_trans less_imp_le)
qed

lemma fold_extremes_of:
  "extremes_of sizes S x \<Longrightarrow> extremes_of sizes (S \<union> set files) (fold (extremes_step sizes) files x)"
proof (induction files arbitrary: S x)
  case Nil
  then show ?case by simp
next
  case (Cons f files)
  have "extremes_of sizes (insert f S \<union> set files)
          (fold (extremes_step sizes) files (extremes_step sizes f x))"
    by (rule Cons.IH [OF extremes_step_of [OF Cons.prems]])
  then show ?case by simp
qed

lemma size_extremes_of:
  "extremes_of sizes (set files) (size_extremes sizes files)"
  using fold_extremes_of [of sizes "{}" extremes_init files]
  by (simp add: size_extremes_def extremes_of_def extremes_init_def)

lemma printed_smallest_sound:
  assumes "printed_smallest (size_extremes sizes files) = Some (f, n)"
  shows "f \<in> set files \<and> (\<exists>k. sizes f = Some k \<and> n = enat k)
         \<and> (\<forall>g \<in> set files. \<forall>m. sizes g = Some m \<longrightarrow> n \<le> enat m)"
proof -
  let ?x = "size_extremes sizes files"
  from assms have f: "smallest_file ?x = Some f" and n: "n = smallest_size ?x"
    by (auto simp: printed_smallest_def split: option.splits if_splits)
  from size_extremes_of [of sizes files] f
  have "f \<in> set files \<and> (\<exists>k. sizes f = Some k \<and> smallest_size ?x = enat k)
         \<and> (\<forall>g \<in> set files. \<forall>m. sizes g = Some m \<longrightarrow> smallest_size ?x \<le> enat m)"
    by (simp add: extremes_of_def)
  then show ?thesis
    unfolding n by simp
qed

lemma printed_largest_sound:
  assumes "printed_largest (size_extremes sizes files) = Some (f, k)"
  shows "f \<in> set files \<and> sizes f = Some k
         \<and> (\<forall>g \<in> set files. \<forall>m. sizes g = Some m \<longrightarrow> m \<le> k)"
proof -
  let ?x = "size_extremes sizes files"
  from assms have f: "largest_file ?x = Some f" and k: "k = largest_size ?x"
    by (auto simp: printed_largest_def split: option.splits if_splits)
  from size_extremes_of [of sizes files] f
  have "f \<in> set files \<and> sizes f = Some (largest_size ?x)
         \<and> (\<forall>g \<in> set files. \<forall>m. sizes g = Some m \<longrightarrow> m \<le> largest_size ?x)"
    by (simp add: extremes_of_def)
  then show ?thesis
    unfolding k by simp
qed

lemma printed_none_for_empty:
  "printed_smallest (size_extremes sizes []) = None"
  "printed_largest (size_extremes sizes []) = None"
  by (simp_all add: printed_smallest_def printed_largest_def size_extremes_def extremes_init_def)

lemma clean_files_set:
  "set (clean_files files problematic) = set files - problematic"
  by (auto simp: clean_files_def)

text \<open>
  C9 on gopher_client_08.py. An extreme that the summary prints is a file of
  its list that is not problematic, with its recorded, finite size, and no clean
  file with a recorded size is smaller (larger); the problematic resources are
  listed as they are; with no clean file nothing is printed for the extremes, so
  the start value \<open>float('inf')\<close> is never printed.
\<close>

theorem extremes_skip_problematic_files:
  "(smallest_text (summarize st) = Some (f, n) \<longrightarrow>
      f \<in> set (text_files st) \<and> f \<notin> problematic_resources st \<and> n \<noteq> \<infinity>
      \<and> (\<exists>k. file_sizes st f = Some k \<and> n = enat k)
      \<and> (\<forall>g \<in> set (text_files st) - problematic_resources st.
            \<forall>m. file_sizes st g = Some m \<longrightarrow> n \<le> enat m))
   \<and> (largest_text (summarize st) = Some (f, k) \<longrightarrow>
        f \<in> set (text_files st) \<and> f \<notin> problematic_resources st \<and> file_sizes st f = Some k
        \<and> (\<forall>g \<in> set (text_files st) - problematic_resources st.
              \<forall>m. file_sizes st g = Some m \<longrightarrow> m \<le> k))
   \<and> (smallest_binary (summarize st) = Some (f, n) \<longrightarrow>
        f \<in> set (binary_files st) \<and> f \<notin> problematic_resources st \<and> n \<noteq> \<infinity>
        \<and> (\<exists>k. file_sizes st f = Some k \<and> n = enat k)
        \<and> (\<forall>g \<in> set (binary_files st) - problematic_resources st.
              \<forall>m. file_sizes st g = Some m \<longrightarrow> n \<le> enat m))
   \<and> (largest_binary (summarize st) = Some (f, k) \<longrightarrow>
        f \<in> set (binary_files st) \<and> f \<notin> problematic_resources st \<and> file_sizes st f = Some k
        \<and> (\<forall>g \<in> set (binary_files st) - problematic_resources st.
              \<forall>m. file_sizes st g = Some m \<longrightarrow> m \<le> k))
   \<and> listed_problematic (summarize st) = problematic_resources st
   \<and> (set (text_files st) \<subseteq> problematic_resources st \<longrightarrow>
        smallest_text (summarize st) = None \<and> largest_text (summarize st) = None)
   \<and> (set (binary_files st) \<subseteq> problematic_resources st \<longrightarrow>
        smallest_binary (summarize st) = None \<and> largest_binary (summarize st) = None)"
proof -
  have e: "clean_files files (problematic_resources st) = []"
    if "set files \<subseteq> problematic_resources st" for files
    using that by (auto simp: clean_files_def filter_empty_conv)
  have s: "f \<in> set files \<and> f \<notin> problematic_resources st \<and> n \<noteq> \<infinity>
      \<and> (\<exists>k. file_sizes st f = Some k \<and> n = enat k)
      \<and> (\<forall>g \<in> set files - problematic_resources st.
            \<forall>m. file_sizes st g = Some m \<longrightarrow> n \<le> enat m)"
    if "printed_smallest (size_extremes (file_sizes st)
          (clean_files files (problematic_resources st))) = Some (f, n)" for files
    using printed_smallest_sound [OF that] by (auto simp: clean_files_set)
  have l: "f \<in> set files \<and> f \<notin> problematic_resources st \<and> file_sizes st f = Some k
      \<and> (\<forall>g \<in> set files - problematic_resources st.
            \<forall>m. file_sizes st g = Some m \<longrightarrow> m \<le> k)"
    if "printed_largest (size_extremes (file_sizes st)
          (clean_files files (problematic_resources st))) = Some (f, k)" for files
    using printed_largest_sound [OF that] by (auto simp: clean_files_set)
  show ?thesis
    using s [of "text_files st"] s [of "binary_files st"] l [of "text_files st"]
      l [of "binary_files st"] e [of "text_files st"] e [of "binary_files st"]
    by (simp add: summarize_def Let_def printed_none_for_empty)
qed

text \<open>
  The text files \<open>C\<close> (10 bytes, problematic), \<open>A\<close> (10 bytes) and \<open>B\<close> (100 bytes):
  the smallest is \<open>A\<close>, the largest is \<open>B\<close>.
\<close>

theorem extremes_skip_problematic_files_witness:
  "smallest_text (summarize ((initial_state [] 70)
      \<lparr>text_files := [str_of ''C'', str_of ''A'', str_of ''B''],
       problematic_resources := {str_of ''C''},
       file_sizes := [str_of ''A'' \<mapsto> 10, str_of ''B'' \<mapsto> 100, str_of ''C'' \<mapsto> 10]\<rparr>))
     = Some (str_of ''A'', enat 10)
   \<and> largest_text (summarize ((initial_state [] 70)
      \<lparr>text_files := [str_of ''C'', str_of ''A'', str_of ''B''],
       problematic_resources := {str_of ''C''},
       file_sizes := [str_of ''A'' \<mapsto> 10, str_of ''B'' \<mapsto> 100, str_of ''C'' \<mapsto> 10]\<rparr>))
     = Some (str_of ''B'', 100)
   \<and> smallest_binary (summarize ((initial_state [] 70)
      \<lparr>text_files := [str_of ''C'', str_of ''A'', str_of ''B''],
       problematic_resources := {str_of ''C''},
       file_sizes := [str_of ''A'' \<mapsto> 10, str_of ''B'' \<mapsto> 100, str_of ''C'' \<mapsto> 10]\<rparr>))
     = None"
  using extremes_skip_problematic_files
    [of "(initial_state [] 70)
      \<lparr>text_files := [str_of ''C'', str_of ''A'', str_of ''B''],
       problematic_resources := {str_of ''C''},
       file_sizes := [str_of ''A'' \<mapsto> 10, str_of ''B'' \<mapsto> 100, str_of ''C'' \<mapsto> 10]\<rparr>"
      "str_of ''A''" "enat 10" 100]
  by (simp add: summarize_def clean_files_def size_extremes_def extremes_step_def
      extremes_init_def printed_smallest_def printed_largest_def initial_state_def
      str_of_def Let_def)

text \<open>
  C9 on gopher_client.py. \<open>GopherClient\<close> with one text file \<open>/f\<close> (\<open>hello\<close>) and no
  binary file: \<open>print_summary\<close> prints the start value \<open>float('inf')\<close> as the smallest
  binary file size.
\<close>

theorem gopher_client_prints_infinite_size:
  "print_summary (handle_text (str_of ''/f'') (Some (str_of ''hello'')) gopher_client_init)
   = Inr \<lparr>smallest_text_content = str_of ''hello'', largest_text_size_line = 5,
          smallest_binary_size_line = \<infinity>, largest_binary_size_line = 0\<rparr>"
  by (simp add: print_summary_def handle_text_def gopher_client_init_def utf8_length_def
      str_of_def Let_def)

section \<open>The receive loop ends\<close>

lemma time_budget_mono:
  fixes a b t :: real
  assumes "a \<le> b" and "0 < t"
  shows "nat (\<lfloor>a / t\<rfloor> + 1) \<le> nat (\<lfloor>b / t\<rfloor> + 1)"
proof -
  have "a / t \<le> b / t"
    using assms by (simp add: divide_right_mono)
  then have "\<lfloor>a / t\<rfloor> \<le> \<lfloor>b / t\<rfloor>"
    by (rule floor_mono)
  then show ?thesis by simp
qed

lemma time_budget_decreases:
  fixes a b t :: real
  assumes "0 \<le> b" and "a + t \<le> b" and "0 < t"
  shows "nat (\<lfloor>a / t\<rfloor> + 1) < nat (\<lfloor>b / t\<rfloor> + 1)"
proof -
  have "(a + t) / t \<le> b / t"
    using assms by (simp add: divide_right_mono)
  then have "a / t + 1 \<le> b / t"
    using assms(3) by (simp add: add_divide_distrib)
  then have "\<lfloor>a / t + 1\<rfloor> \<le> \<lfloor>b / t\<rfloor>"
    by (rule floor_mono)
  then have 1: "\<lfloor>a / t\<rfloor> + 1 \<le> \<lfloor>b / t\<rfloor>"
    by simp
  have "0 \<le> b / t"
    using assms by simp
  then have "0 \<le> \<lfloor>b / t\<rfloor>"
    by simp
  with 1 show ?thesis by simp
qed

lemma recv_loop_returns:
  assumes "0 < timeout" and "clock_ok c timeout"
  shows "budget c timeout max_data_size max_time k data \<le> n
         \<Longrightarrow> \<exists>r. recv_loop c timeout max_data_size max_time k data lp = Some r"
proof (induction n arbitrary: k data lp)
  case 0
  then have "length data > max_data_size"
    by (simp add: budget_def)
  then show ?case
    by (subst recv_loop.simps) simp
next
  case (Suc n)
  have mono: "clock c k \<le> clock c (Suc k)"
    using assms(2) by (simp add: clock_ok_def)
  show ?case
  proof (cases "length data > max_data_size \<or> clock c k - start_time c > max_time")
    case True
    then show ?thesis
      by (subst recv_loop.simps) (auto simp: Let_def)
  next
    case False
    then have size: "length data \<le> max_data_size"
      and time: "clock c k - start_time c \<le> max_time"
      by auto
    show ?thesis
    proof (cases "recv c k")
      case (Inr chunk)
      show ?thesis
      proof (cases "chunk = []")
        case True
        then show ?thesis
          using Inr False by (subst recv_loop.simps) (auto simp: Let_def)
      next
        case chunk: False
        have "nat (\<lfloor>(start_time c + max_time - clock c (Suc k)) / timeout\<rfloor> + 1)
                \<le> nat (\<lfloor>(start_time c + max_time - clock c k) / timeout\<rfloor> + 1)"
          using mono assms(1) by (intro time_budget_mono) simp_all
        moreover have "Suc max_data_size - length (data @ chunk) < Suc max_data_size - length data"
          using size chunk by (cases chunk) simp_all
        ultimately have "budget c timeout max_data_size max_time (Suc k) (data @ chunk) \<le> n"
          using Suc.prems unfolding budget_def by linarith
        from Suc.IH [OF this, of "clock c k"] show ?thesis
          using Inr chunk False by (subst recv_loop.simps) (auto simp: Let_def)
      qed
    next
      case (Inl err)
      show ?thesis
      proof (cases "err = SocketTimeout \<and> \<not> clock c k - lp > timeout")
        case True
        then have t: "recv c k = Inl SocketTimeout"
          using Inl by simp
        then have "clock c k + timeout \<le> clock c (Suc k)"
          using assms(2) by (simp add: clock_ok_def)
        then have "nat (\<lfloor>(start_time c + max_time - clock c (Suc k)) / timeout\<rfloor> + 1)
                < nat (\<lfloor>(start_time c + max_time - clock c k) / timeout\<rfloor> + 1)"
          using time assms(1) by (intro time_budget_decreases) simp_all
        then have "budget c timeout max_data_size max_time (Suc k) data \<le> n"
          using Suc.prems unfolding budget_def by linarith
        from Suc.IH [OF this, of lp] show ?thesis
          using t True False by (subst recv_loop.simps) (auto simp: Let_def)
      next
        case no: False
        then show ?thesis
          using Inl False
          by (subst recv_loop.simps) (cases err; auto simp: Let_def)
      qed
    qed
  qed
qed

lemma received_Suc:
  "received c (Suc k) = received c k @ (case recv c k of Inr chunk \<Rightarrow> chunk | Inl err \<Rightarrow> [])"
  by (simp add: received_def)

lemma recv_loop_data:
  assumes "recv_loop c timeout max_data_size max_time k data lp = Some r"
  shows "data = received c k \<Longrightarrow> r = Inr (d, why) \<Longrightarrow> \<exists>j. d = received c j"
  using assms
proof (induction arbitrary: d why rule: recv_loop.raw_induct [rotated 1, consumes 1])
  case (1 recv_loop c timeout max_data_size max_time k data lp r)
  note body = "1.hyps" and data = "1.prems"(1) and r = "1.prems"(2)
  show ?case
  proof (cases "length data > max_data_size \<or> clock c k - start_time c > max_time")
    case True
    then have "d = data"
      using body r by (auto simp: Let_def split: if_splits)
    then show ?thesis using data by blast
  next
    case False
    show ?thesis
    proof (cases "recv c k")
      case (Inr chunk)
      show ?thesis
      proof (cases "chunk = []")
        case True
        then have "d = data"
          using body r Inr False by (auto simp: Let_def)
        then show ?thesis using data by blast
      next
        case chunk: False
        then have call: "recv_loop c timeout max_data_size max_time (Suc k) (data @ chunk)
                           (clock c k) = Some r"
          using body Inr False by (auto simp: Let_def)
        have "data @ chunk = received c (Suc k)"
          using data Inr by (simp add: received_Suc)
        from "1.IH" [OF call this r] show ?thesis .
      qed
    next
      case (Inl err)
      show ?thesis
      proof (cases "err = SocketTimeout")
        case True
        show ?thesis
        proof (cases "clock c k - lp > timeout")
          case exit: True
          then have "d = data"
            using body r Inl True False by (auto simp: Let_def)
          then show ?thesis using data by blast
        next
          case go: False
          then have call: "recv_loop c timeout max_data_size max_time (Suc k) data lp = Some r"
            using body Inl True False by (auto simp: Let_def)
          have "data = received c (Suc k)"
            using data Inl by (simp add: received_Suc)
          from "1.IH" [OF call this r] show ?thesis .
        qed
      next
        case other: False
        then have "False"
          using body r Inl False by (cases err) (auto simp: Let_def)
        then show ?thesis ..
      qed
    qed
  qed
qed

lemma recv_loop_05_never_returns:
  assumes "recv_loop_05 c k data = Some r"
  shows "\<exists>j. recv c j = Inr [] \<or> (\<exists>err. recv c j = Inl err)"
  using assms
proof (induction rule: recv_loop_05.raw_induct [rotated 1, consumes 1])
  case (1 recv_loop_05 c k data r)
  show ?case
  proof (cases "recv c k")
    case (Inl err)
    then show ?thesis by blast
  next
    case (Inr chunk)
    show ?thesis
    proof (cases "chunk = []")
      case True
      then show ?thesis using Inr by blast
    next
      case False
      then have "recv_loop_05 c (Suc k) (data @ chunk) = Some r"
        using "1.hyps" Inr by simp
      then show ?thesis by (rule "1.IH")
    qed
  qed
qed

lemma recv_loop_exit:
  assumes "recv_loop c timeout max_data_size max_time k data lp = Some r"
  shows "r = Inr (d, why) \<Longrightarrow>
         (why = SizeExceeded \<longrightarrow> length d > max_data_size)
         \<and> (why = TimeExceeded \<longrightarrow> (\<exists>j. clock c j - start_time c > max_time))
         \<and> (why = ConnectionClosed \<longrightarrow> (\<exists>j. recv c j = Inr []))
         \<and> (why = ReceiveTimeout \<longrightarrow> (\<exists>j. recv c j = Inl SocketTimeout))"
  using assms
proof (induction arbitrary: d why rule: recv_loop.raw_induct [rotated 1, consumes 1])
  case (1 recv_loop c timeout max_data_size max_time k data lp r)
  note body = "1.hyps" and r = "1.prems"
  show ?case
  proof (cases "length data > max_data_size")
    case True
    then show ?thesis
      using body r by auto
  next
    case small: False
    show ?thesis
    proof (cases "clock c k - start_time c > max_time")
      case True
      then show ?thesis
        using body r small by (auto simp: Let_def)
    next
      case False
      show ?thesis
      proof (cases "recv c k")
        case (Inr chunk)
        show ?thesis
        proof (cases "chunk = []")
          case True
          then show ?thesis
            using body r Inr False small by (auto simp: Let_def)
        next
          case chunk: False
          then have "recv_loop c timeout max_data_size max_time (Suc k) (data @ chunk)
                       (clock c k) = Some r"
            using body Inr False small by (auto simp: Let_def)
          from "1.IH" [OF this r] show ?thesis .
        qed
      next
        case (Inl err)
        show ?thesis
        proof (cases "err = SocketTimeout")
          case True
          show ?thesis
          proof (cases "clock c k - lp > timeout")
            case exit: True
            then show ?thesis
              using body r Inl True False small by (auto simp: Let_def)
          next
            case go: False
            then have "recv_loop c timeout max_data_size max_time (Suc k) data lp = Some r"
              using body Inl True False small by (auto simp: Let_def)
            from "1.IH" [OF this r] show ?thesis .
          qed
        next
          case other: False
          then have "False"
            using body r Inl False small by (cases err) (auto simp: Let_def)
          then show ?thesis ..
        qed
      qed
    qed
  qed
qed

lemma received_0 [simp]: "received c 0 = []"
  by (simp add: received_def)

lemma recv_loop_goes_on:
  assumes "leaves c t m mt k = None"
  shows "recv_loop c t m mt k (received c k) (last_progress c k)
           = recv_loop c t m mt (Suc k) (received c (Suc k)) (last_progress c (Suc k))"
proof -
  have lim: "\<not> length (received c k) > m" "\<not> clock c k - start_time c > mt"
    using assms by (auto simp: leaves_def split: if_splits)
  show ?thesis
  proof (cases "recv c k")
    case (Inr chunk)
    then have "chunk \<noteq> []"
      using assms lim by (auto simp: leaves_def split: if_splits)
    then show ?thesis
      using Inr lim
      by (subst recv_loop.simps) (simp add: Let_def received_Suc)
  next
    case (Inl err)
    then have "err = SocketTimeout" "\<not> clock c k - last_progress c k > t"
      using assms lim by (cases err; auto simp: leaves_def split: if_splits)+
    then show ?thesis
      using Inl lim
      by (subst recv_loop.simps) (simp add: Let_def received_Suc)
  qed
qed

lemma recv_loop_leaves:
  assumes "leaves c t m mt k = Some x"
  shows "recv_loop c t m mt k (received c k) (last_progress c k)
           = Some (case x of Inl err \<Rightarrow> Inl err | Inr why \<Rightarrow> Inr (received c k, why))"
proof (cases "length (received c k) > m \<or> clock c k - start_time c > mt")
  case True
  then show ?thesis
    using assms by (subst recv_loop.simps) (auto simp: leaves_def Let_def)
next
  case False
  show ?thesis
  proof (cases "recv c k")
    case (Inr chunk)
    then show ?thesis
      using assms False
      by (subst recv_loop.simps) (auto simp: leaves_def Let_def split: if_splits)
  next
    case (Inl err)
    then show ?thesis
      using assms False
      by (subst recv_loop.simps) (cases err; auto simp: leaves_def Let_def split: if_splits)
  qed
qed

lemma recv_loop_skip:
  "(\<forall>i' < d. leaves c t m mt (k + i') = None) \<Longrightarrow>
     recv_loop c t m mt k (received c k) (last_progress c k)
       = recv_loop c t m mt (k + d) (received c (k + d)) (last_progress c (k + d))"
proof (induction d)
  case 0
  show ?case by simp
next
  case (Suc d)
  then have "leaves c t m mt (k + d) = None"
    by simp
  from recv_loop_goes_on [OF this] Suc show ?case
    by simp
qed

lemma left_at_recv_loop:
  assumes "left_at c t m mt i r"
  shows "recv_loop c t m mt 0 [] (start_time c) = Some r"
proof -
  have skip: "recv_loop c t m mt 0 (received c 0) (last_progress c 0)
                = recv_loop c t m mt i (received c i) (last_progress c i)"
    using recv_loop_skip [of i c t m mt 0] assms by (simp add: left_at_def)
  obtain x where x: "leaves c t m mt i = Some x"
    using assms by (auto simp: left_at_def split: option.splits)
  have "r = (case x of Inl err \<Rightarrow> Inl err | Inr why \<Rightarrow> Inr (received c i, why))"
    using assms x by (auto simp: left_at_def split: sum.splits)
  then show ?thesis
    using skip recv_loop_leaves [OF x] by simp
qed

lemma first_exit:
  assumes "leaves c t m mt j \<noteq> None"
  shows "\<exists>i \<le> j. \<exists>r. left_at c t m mt i r"
proof -
  define i where "i = (LEAST i. leaves c t m mt i \<noteq> None)"
  have le: "i \<le> j"
    unfolding i_def using assms by (rule Least_le)
  have ex: "leaves c t m mt i \<noteq> None"
    unfolding i_def using assms by (rule LeastI)
  have before: "leaves c t m mt i' = None" if "i' < i" for i'
    using not_less_Least [of i' "\<lambda>i. leaves c t m mt i \<noteq> None"] that
    unfolding i_def by blast
  obtain x where x: "leaves c t m mt i = Some x"
    using ex by auto
  have "left_at c t m mt i (case x of Inl err \<Rightarrow> Inl err | Inr why \<Rightarrow> Inr (received c i, why))"
    using x before by (auto simp: left_at_def split: sum.splits)
  then show ?thesis
    using le by blast
qed

lemma recv_loop_some_leaves:
  assumes "recv_loop c t m mt k data lp = Some r"
  shows "data = received c k \<Longrightarrow> lp = last_progress c k \<Longrightarrow> \<exists>i. leaves c t m mt i \<noteq> None"
  using assms
proof (induction rule: recv_loop.raw_induct [rotated 1, consumes 1])
  case (1 recv_loop c t m mt k data lp r)
  note body = "1.hyps" and data = "1.prems"(1) and lp = "1.prems"(2)
  show ?case
  proof (cases "leaves c t m mt k")
    case (Some x)
    then show ?thesis by (intro exI [of _ k]) simp
  next
    case None
    then have lim: "\<not> length (received c k) > m" "\<not> clock c k - start_time c > mt"
      by (auto simp: leaves_def split: if_splits)
    show ?thesis
    proof (cases "recv c k")
      case (Inr chunk)
      then have chunk: "chunk \<noteq> []"
        using None lim by (auto simp: leaves_def split: if_splits)
      then have call: "recv_loop c t m mt (Suc k) (data @ chunk) (clock c k) = Some r"
        using body Inr lim data by (auto simp: Let_def)
      have d: "data @ chunk = received c (Suc k)"
        using data Inr by (simp add: received_Suc)
      have l: "clock c k = last_progress c (Suc k)"
        using Inr chunk by simp
      from "1.IH" [OF call d l] show ?thesis .
    next
      case (Inl err)
      then have t: "err = SocketTimeout" "\<not> clock c k - last_progress c k > t"
        using None lim by (cases err; auto simp: leaves_def split: if_splits)+
      then have call: "recv_loop c t m mt (Suc k) data lp = Some r"
        using body Inl lim data lp by (auto simp: Let_def)
      have d: "data = received c (Suc k)"
        using data Inl by (simp add: received_Suc)
      have l: "lp = last_progress c (Suc k)"
        using Inl lp by simp
      from "1.IH" [OF call d l] show ?thesis .
    qed
  qed
qed

lemma recv_loop_left_at:
  "recv_loop c t m mt 0 [] (start_time c) = Some r \<longleftrightarrow> (\<exists>i. left_at c t m mt i r)"
proof
  assume r: "recv_loop c t m mt 0 [] (start_time c) = Some r"
  then obtain j where "leaves c t m mt j \<noteq> None"
    using recv_loop_some_leaves [OF r] by auto
  then obtain i r' where l: "left_at c t m mt i r'"
    using first_exit by blast
  then have "r' = r"
    using left_at_recv_loop [OF l] r by simp
  then show "\<exists>i. left_at c t m mt i r"
    using l by blast
next
  assume "\<exists>i. left_at c t m mt i r"
  then show "recv_loop c t m mt 0 [] (start_time c) = Some r"
    using left_at_recv_loop by blast
qed

lemma leaves_None_limits:
  "leaves c t m mt k = None \<Longrightarrow> length (received c k) \<le> m \<and> clock c k - start_time c \<le> mt"
  by (auto simp: leaves_def split: if_splits)

lemma left_at_size:
  assumes "left_at c t m mt i r" and "\<forall>k chunk. recv c k = Inr chunk \<longrightarrow> length chunk \<le> n"
  shows "length (received c i) \<le> m + n"
proof (cases i)
  case 0
  then show ?thesis by simp
next
  case (Suc k)
  then have "leaves c t m mt k = None"
    using assms(1) by (simp add: left_at_def)
  then have "length (received c k) \<le> m"
    by (simp add: leaves_None_limits)
  moreover have "length (case recv c k of Inr chunk \<Rightarrow> chunk | Inl err \<Rightarrow> []) \<le> n"
    using assms(2) by (cases "recv c k") auto
  ultimately show ?thesis
    using Suc by (simp add: received_Suc)
qed

lemma left_at_time:
  assumes "left_at c t m mt i r" and "0 \<le> mt" and "clock c 0 - start_time c \<le> step"
    and "\<forall>k. clock c (Suc k) - clock c k \<le> step"
  shows "clock c i - start_time c \<le> mt + step"
proof (cases i)
  case 0
  then show ?thesis using assms(2,3) by simp
next
  case (Suc k)
  then have "leaves c t m mt k = None"
    using assms(1) by (simp add: left_at_def)
  then have "clock c k - start_time c \<le> mt"
    by (simp add: leaves_None_limits)
  moreover have "clock c (Suc k) - clock c k \<le> step"
    using assms(4) by simp
  ultimately show ?thesis
    using Suc by simp
qed

lemma send_gopher_request_left_at:
  assumes "left_at c t m mt i r"
  shows "send_gopher_request c t m mt
           = Some (if connect_raises c = None \<and> sendall_raises c = None
                   then (case r of Inl err \<Rightarrow> [] | Inr (d, why) \<Rightarrow> d) else [])"
  using left_at_recv_loop [OF assms]
  by (auto simp: send_gopher_request_def split: option.splits sum.splits)

lemma left_at_bytes:
  "left_at c t m mt i (Inr (d, why)) \<Longrightarrow> d = received c i"
  by (auto simp: left_at_def split: option.splits sum.splits)

lemma send_gopher_request_size:
  assumes "\<forall>k chunk. recv c k = Inr chunk \<longrightarrow> length chunk \<le> n"
    and "send_gopher_request c t m mt = Some returned"
  shows "length returned \<le> m + n"
proof (cases "connect_raises c = None \<and> sendall_raises c = None")
  case False
  then have "send_gopher_request c t m mt = Some []"
    by (auto simp: send_gopher_request_def split: option.splits)
  then show ?thesis
    using assms(2) by simp
next
  case True
  then obtain r where "recv_loop c t m mt 0 [] (start_time c) = Some r"
    using assms(2) by (auto simp: send_gopher_request_def split: option.splits)
  then obtain i where l: "left_at c t m mt i r"
    using recv_loop_left_at by blast
  have ret: "returned = (case r of Inl err \<Rightarrow> [] | Inr (d, why) \<Rightarrow> d)"
    using send_gopher_request_left_at [OF l] assms(2) True by simp
  show ?thesis
  proof (cases r)
    case (Inl err)
    then show ?thesis using ret by simp
  next
    case (Inr dw)
    obtain d why where dw: "dw = (d, why)"
      by (cases dw)
    have "d = received c i"
      using l Inr dw by (simp add: left_at_bytes)
    then show ?thesis
      using left_at_size [OF l assms(1)] ret Inr dw by simp
  qed
qed

lemma slow_sender_left_at:
  "left_at slow_sender 10 (10 * 1024 * 1024) 30 4 (Inr (bytes_of ''aaaa'', TimeExceeded))"
proof -
  have "i' = 0 \<or> i' = 1 \<or> i' = 2 \<or> i' = 3" if "i' < 4" for i' :: nat
    using that by arith
  then have "\<forall>i' < 4. leaves slow_sender 10 (10 * 1024 * 1024) 30 i' = None"
    by (auto simp: leaves_def slow_sender_def received_def bytes_of_def)
  moreover have "leaves slow_sender 10 (10 * 1024 * 1024) 30 4 = Some (Inr TimeExceeded)"
    by (simp add: leaves_def slow_sender_def received_def bytes_of_def)
  moreover have "received slow_sender 4 = bytes_of ''aaaa''"
    by (simp add: slow_sender_def received_def bytes_of_def upt_rec)
  ultimately show ?thesis
    by (simp add: left_at_def)
qed

text \<open>
  C3 (as the code has it). On a clock that does not run backwards and with a
  positive socket timeout that each timed-out \<open>recv\<close> waits for,
  \<open>send_gopher_request\<close> of gopher_client_08.py returns for every peer, also one
  that never closes and never stops sending or that stalls; what it returns is
  the bytes received up to some call of \<open>recv\<close> (or the empty bytes after an
  exception), and nothing else: the way the loop was left is not part of the
  result. A loop left by the size limit holds more than \<open>max_data_size\<close> bytes, and
  one left by the time limit saw more than \<open>max_time\<close> seconds pass.

  The limits are tested at the head of each iteration, before \<open>recv\<close>. The loop
  returns exactly when some iteration leaves it, and it is left in the first such
  iteration. If at the head of iteration \<open>j\<close> more than \<open>max_data_size\<close> bytes are held
  or the clock reads more than \<open>max_time\<close> seconds after \<open>start_time\<close>, the loop is left
  in iteration \<open>j\<close> at the latest and the function returns; no assumption on the
  clock is needed for this. Every iteration before the one that leaves began
  within both limits, so a limit is overshot by what one iteration adds and no
  more: when no chunk is longer than 4096 bytes (the argument of \<open>recv\<close>), at most
  \<open>max_data_size + 4096\<close> bytes are returned; when no iteration takes more than
  \<open>step\<close> seconds, the clock reading of the iteration that leaves is at most
  \<open>max_time + step\<close> seconds after \<open>start_time\<close> (for a \<open>max_time\<close> that is not
  negative).

  \<open>send_gopher_request\<close> of gopher_client_05.py has no limits: with a peer that
  always sends and never closes its loop never returns, and neither does the
  function once it is connected.

  The lines that \<open>send_gopher_request\<close> prints are taken to be written without
  error.
\<close>

theorem send_gopher_request_returns:
  "(0 < timeout \<and> clock_ok c timeout \<longrightarrow>
      (\<exists>data j. send_gopher_request c timeout max_data_size max_time = Some data
         \<and> data = received c j)
      \<and> (\<exists>i r. left_at c timeout max_data_size max_time i r))
   \<and> (connect_raises c = None \<and> sendall_raises c = None
        \<and> recv_loop c timeout max_data_size max_time 0 [] (start_time c)
            = Some (Inr (d, why)) \<longrightarrow>
        send_gopher_request c timeout max_data_size max_time = Some d
        \<and> (why = SizeExceeded \<longrightarrow> length d > max_data_size)
        \<and> (why = TimeExceeded \<longrightarrow> (\<exists>j. clock c j - start_time c > max_time))
        \<and> (why = ConnectionClosed \<longrightarrow> (\<exists>j. recv c j = Inr []))
        \<and> (why = ReceiveTimeout \<longrightarrow> (\<exists>j. recv c j = Inl SocketTimeout)))
   \<and> (recv_loop c timeout max_data_size max_time 0 [] (start_time c) = Some r
        \<longleftrightarrow> (\<exists>i. left_at c timeout max_data_size max_time i r))
   \<and> (length (received c j) > max_data_size \<or> clock c j - start_time c > max_time \<longrightarrow>
        (\<exists>i \<le> j. \<exists>r'. left_at c timeout max_data_size max_time i r'
           \<and> recv_loop c timeout max_data_size max_time 0 [] (start_time c) = Some r')
        \<and> (\<exists>data. send_gopher_request c timeout max_data_size max_time = Some data))
   \<and> (left_at c timeout max_data_size max_time i r \<longrightarrow>
        send_gopher_request c timeout max_data_size max_time
          = Some (if connect_raises c = None \<and> sendall_raises c = None
                  then (case r of Inl err \<Rightarrow> [] | Inr (bytes, exit) \<Rightarrow> bytes) else [])
        \<and> (\<forall>i' < i. length (received c i') \<le> max_data_size
              \<and> clock c i' - start_time c \<le> max_time)
        \<and> ((\<forall>k chunk. recv c k = Inr chunk \<longrightarrow> length chunk \<le> 4096) \<longrightarrow>
              length (received c i) \<le> max_data_size + 4096)
        \<and> (0 \<le> max_time \<and> clock c 0 - start_time c \<le> step
              \<and> (\<forall>k. clock c (Suc k) - clock c k \<le> step) \<longrightarrow>
              clock c i - start_time c \<le> max_time + step))
   \<and> ((\<forall>k chunk. recv c k = Inr chunk \<longrightarrow> length chunk \<le> 4096)
        \<and> send_gopher_request c timeout max_data_size max_time = Some returned \<longrightarrow>
        length returned \<le> max_data_size + 4096)
   \<and> ((\<forall>j. \<exists>chunk. recv c j = Inr chunk \<and> chunk \<noteq> []) \<longrightarrow>
        recv_loop_05 c k data5 = None
        \<and> (connect_raises c = None \<and> sendall_raises c = None \<longrightarrow>
             send_gopher_request_05 c = None))"
proof -
  have a: "(\<exists>data j. send_gopher_request c timeout max_data_size max_time = Some data
         \<and> data = received c j)
      \<and> (\<exists>i r. left_at c timeout max_data_size max_time i r)"
    if t: "0 < timeout" and ck: "clock_ok c timeout"
  proof -
    have nil: "[] = received c 0"
      by simp
    obtain r where r: "recv_loop c timeout max_data_size max_time 0 [] (start_time c) = Some r"
      using recv_loop_returns [OF t ck le_refl, of max_data_size max_time 0 "[]" "start_time c"]
      by blast
    then have l: "\<exists>i r. left_at c timeout max_data_size max_time i r"
      using recv_loop_left_at [of c timeout max_data_size max_time r] by blast
    have "\<exists>data j. send_gopher_request c timeout max_data_size max_time = Some data
         \<and> data = received c j"
    proof (cases "connect_raises c = None \<and> sendall_raises c = None")
      case False
      then have "send_gopher_request c timeout max_data_size max_time = Some []"
        by (auto simp: send_gopher_request_def split: option.splits)
      then show ?thesis using nil by blast
    next
      case True
      show ?thesis
      proof (cases r)
        case (Inl err)
        then have "send_gopher_request c timeout max_data_size max_time = Some []"
          using r True by (simp add: send_gopher_request_def)
        then show ?thesis using nil by blast
      next
        case (Inr dw)
        obtain d' why' where dw: "dw = (d', why')"
          by (cases dw)
        have "send_gopher_request c timeout max_data_size max_time = Some d'"
          using r True Inr dw by (simp add: send_gopher_request_def)
        moreover have "\<exists>j. d' = received c j"
          using recv_loop_data [OF r nil] Inr dw by simp
        ultimately show ?thesis by blast
      qed
    qed
    with l show ?thesis by blast
  qed
  have b: "send_gopher_request c timeout max_data_size max_time = Some d
        \<and> (why = SizeExceeded \<longrightarrow> length d > max_data_size)
        \<and> (why = TimeExceeded \<longrightarrow> (\<exists>j. clock c j - start_time c > max_time))
        \<and> (why = ConnectionClosed \<longrightarrow> (\<exists>j. recv c j = Inr []))
        \<and> (why = ReceiveTimeout \<longrightarrow> (\<exists>j. recv c j = Inl SocketTimeout))"
    if "connect_raises c = None" "sendall_raises c = None"
      "recv_loop c timeout max_data_size max_time 0 [] (start_time c) = Some (Inr (d, why))"
    using recv_loop_exit [OF that(3) refl] that by (simp add: send_gopher_request_def)
  note e = recv_loop_left_at [of c timeout max_data_size max_time r]
  have f: "(\<exists>i \<le> j. \<exists>r'. left_at c timeout max_data_size max_time i r'
           \<and> recv_loop c timeout max_data_size max_time 0 [] (start_time c) = Some r')
        \<and> (\<exists>data. send_gopher_request c timeout max_data_size max_time = Some data)"
    if "length (received c j) > max_data_size \<or> clock c j - start_time c > max_time"
  proof -
    have "leaves c timeout max_data_size max_time j \<noteq> None"
      using that by (auto simp: leaves_def)
    then obtain i r' where l: "i \<le> j" "left_at c timeout max_data_size max_time i r'"
      using first_exit by blast
    then show ?thesis
      using left_at_recv_loop [OF l(2)] send_gopher_request_left_at [OF l(2)] by blast
  qed
  have g: "send_gopher_request c timeout max_data_size max_time
          = Some (if connect_raises c = None \<and> sendall_raises c = None
                  then (case r of Inl err \<Rightarrow> [] | Inr (bytes, exit) \<Rightarrow> bytes) else [])
        \<and> (\<forall>i' < i. length (received c i') \<le> max_data_size
              \<and> clock c i' - start_time c \<le> max_time)
        \<and> ((\<forall>k chunk. recv c k = Inr chunk \<longrightarrow> length chunk \<le> 4096) \<longrightarrow>
              length (received c i) \<le> max_data_size + 4096)
        \<and> (0 \<le> max_time \<and> clock c 0 - start_time c \<le> step
              \<and> (\<forall>k. clock c (Suc k) - clock c k \<le> step) \<longrightarrow>
              clock c i - start_time c \<le> max_time + step)"
    if l: "left_at c timeout max_data_size max_time i r"
  proof (intro conjI)
    show "send_gopher_request c timeout max_data_size max_time
          = Some (if connect_raises c = None \<and> sendall_raises c = None
                  then (case r of Inl err \<Rightarrow> [] | Inr (bytes, exit) \<Rightarrow> bytes) else [])"
      by (rule send_gopher_request_left_at [OF l])
    show "\<forall>i' < i. length (received c i') \<le> max_data_size
              \<and> clock c i' - start_time c \<le> max_time"
      using l leaves_None_limits [of c timeout max_data_size max_time]
      by (auto simp: left_at_def)
    show "(\<forall>k chunk. recv c k = Inr chunk \<longrightarrow> length chunk \<le> 4096) \<longrightarrow>
              length (received c i) \<le> max_data_size + 4096"
      using left_at_size [OF l] by blast
    show "0 \<le> max_time \<and> clock c 0 - start_time c \<le> step
              \<and> (\<forall>k. clock c (Suc k) - clock c k \<le> step) \<longrightarrow>
              clock c i - start_time c \<le> max_time + step"
      using left_at_time [OF l] by blast
  qed
  have c5': "recv_loop_05 c k' data' = None"
    if h: "\<forall>j. \<exists>chunk. recv c j = Inr chunk \<and> chunk \<noteq> []" for k' data'
  proof (rule ccontr)
    assume "recv_loop_05 c k' data' \<noteq> None"
    then obtain r where "recv_loop_05 c k' data' = Some r"
      by auto
    from recv_loop_05_never_returns [OF this] show False
      using h by (metis Inl_Inr_False sum.inject(2))
  qed
  have c5: "recv_loop_05 c k data5 = None
        \<and> (connect_raises c = None \<and> sendall_raises c = None \<longrightarrow>
             send_gopher_request_05 c = None)"
    if h: "\<forall>j. \<exists>chunk. recv c j = Inr chunk \<and> chunk \<noteq> []"
    using c5' [OF h] by (simp add: send_gopher_request_05_def)
  have s: "length returned \<le> max_data_size + 4096"
    if "\<forall>k chunk. recv c k = Inr chunk \<longrightarrow> length chunk \<le> 4096"
      "send_gopher_request c timeout max_data_size max_time = Some returned"
    using that by (rule send_gopher_request_size)
  show ?thesis
    using a b e f g s c5 by blast
qed

text \<open>
  \<open>slow_sender\<close> sends one byte every nine seconds for ever: under the limits of
  \<open>main\<close> the loop is left in its fifth iteration, the first whose clock reading
  (36 seconds) is beyond \<open>max_time\<close>, and the request returns the four bytes it has
  by then. \<open>closing_sender\<close> sends four bytes at once: under a size limit of three
  bytes all four are returned, the limit being tested only before the next
  \<open>recv\<close>.
\<close>

theorem send_gopher_request_returns_witness:
  "(0::real) < 10 \<and> clock_ok slow_sender 10
   \<and> clock slow_sender 4 - start_time slow_sender > 30
   \<and> left_at slow_sender 10 (10 * 1024 * 1024) 30 4 (Inr (bytes_of ''aaaa'', TimeExceeded))
   \<and> recv slow_sender = (\<lambda>k. Inr (bytes_of ''a''))
   \<and> clock slow_sender 0 - start_time slow_sender \<le> 9
   \<and> send_gopher_request slow_sender 10 (10 * 1024 * 1024) 30 = Some (bytes_of ''aaaa'')
   \<and> length (received slow_sender 4) \<le> 10 * 1024 * 1024 + 4096
   \<and> clock slow_sender 4 - start_time slow_sender \<le> 30 + 9
   \<and> recv closing_sender = (\<lambda>k. if k = 0 then Inr (bytes_of ''aaaa'') else Inr [])
   \<and> send_gopher_request closing_sender 10 3 30 = Some (bytes_of ''aaaa'')
   \<and> length (bytes_of ''aaaa'') \<le> 3 + 4096"
proof -
  have ok: "clock_ok slow_sender 10"
    by (simp add: clock_ok_def slow_sender_def)
  have late: "clock slow_sender 4 - start_time slow_sender > 30"
    by (simp add: slow_sender_def)
  have chunks: "recv slow_sender = (\<lambda>k. Inr (bytes_of ''a''))"
    by (simp add: slow_sender_def)
  then have small: "\<forall>k chunk. recv slow_sender k = Inr chunk \<longrightarrow> length chunk \<le> 4096"
    by (simp add: bytes_of_def)
  have steps: "clock slow_sender 0 - start_time slow_sender \<le> 9"
    "\<forall>k. clock slow_sender (Suc k) - clock slow_sender k \<le> 9"
    by (simp_all add: slow_sender_def)
  have none: "connect_raises slow_sender = None \<and> sendall_raises slow_sender = None"
    by (simp add: slow_sender_def)
  have slow: "send_gopher_request slow_sender 10 (10 * 1024 * 1024) 30 = Some (bytes_of ''aaaa'')
     \<and> length (received slow_sender 4) \<le> 10 * 1024 * 1024 + 4096
     \<and> clock slow_sender 4 - start_time slow_sender \<le> 30 + 9"
    using ok late chunks small steps none slow_sender_left_at
      send_gopher_request_returns [where timeout = 10 and c = slow_sender
        and max_data_size = "10 * 1024 * 1024" and max_time = 30 and j = 4 and i = 4
        and r = "Inr (bytes_of ''aaaa'', TimeExceeded)" and step = 9]
    by simp
  have chunks': "recv closing_sender = (\<lambda>k. if k = 0 then Inr (bytes_of ''aaaa'') else Inr [])"
    by (simp add: closing_sender_def)
  then have small': "\<forall>k chunk. recv closing_sender k = Inr chunk \<longrightarrow> length chunk \<le> 4096"
    by (simp add: bytes_of_def)
  have over: "send_gopher_request closing_sender 10 3 30 = Some (bytes_of ''aaaa'')"
    by (simp add: send_gopher_request_def recv_loop.simps closing_sender_def bytes_of_def)
  have "length (bytes_of ''aaaa'') \<le> 3 + 4096"
    using small' over
      send_gopher_request_returns [where timeout = 10 and c = closing_sender
        and max_data_size = 3 and max_time = 30 and returned = "bytes_of ''aaaa''"]
    by blast
  then show ?thesis
    using ok late chunks steps(1) slow slow_sender_left_at chunks' over by simp
qed

text \<open>
  \<open>slow_sender\<close> trips the time limit, \<open>closing_sender\<close> sends the same four bytes
  and closes: \<open>send_gopher_request\<close> returns the same value for both, so the value
  carries no truncation flag.
\<close>

theorem truncation_is_not_returned:
  "recv_loop slow_sender 10 (10 * 1024 * 1024) 30 0 [] (start_time slow_sender)
     = Some (Inr (bytes_of ''aaaa'', TimeExceeded))
   \<and> recv_loop closing_sender 10 (10 * 1024 * 1024) 30 0 [] (start_time closing_sender)
     = Some (Inr (bytes_of ''aaaa'', ConnectionClosed))
   \<and> send_gopher_request slow_sender 10 (10 * 1024 * 1024) 30
     = send_gopher_request closing_sender 10 (10 * 1024 * 1024) 30"
  by (simp add: send_gopher_request_def recv_loop.simps slow_sender_def closing_sender_def
      bytes_of_def)

section \<open>Failed requests\<close>

lemma grows_refl: "grows st st"
  by (simp add: grows_def)

lemma grows_trans: "grows a b \<Longrightarrow> grows b c \<Longrightarrow> grows a c"
  by (auto simp: grows_def)

lemma process_item_grows: "grows st (process_item e h p it st)"
  by (auto simp: grows_def process_item_def Let_def split: prod.splits)

lemma fold_process_item_grows: "grows st (fold (process_item e h p) its st)"
proof (induction its arbitrary: st)
  case Nil
  show ?case by (simp add: grows_refl)
next
  case (Cons it its)
  show ?case
    using grows_trans [OF process_item_grows Cons.IH] by simp
qed

lemma process_file_grows: "grows st (process_file sel r st)"
  by (simp add: grows_def)

lemma listed_grows: "grows st (listed sel st)"
  by (simp add: grows_def)

lemma failures_recorded_grows:
  assumes "failures_recorded e st" and "grows st st'"
  shows "failures_recorded e st'"
proof -
  have same: "request_log st' = request_log st"
    "problematic_resources st' = problematic_resources st"
    "invalid_references st \<subseteq> invalid_references st'"
    using assms(2) by (simp_all add: grows_def)
  then have "requested_selectors st' = requested_selectors st"
    by (simp add: requested_selectors_def)
  then show ?thesis
    using assms(1) same
    unfolding failures_recorded_def
    by (auto split: prod.splits)
qed

lemma logged_selector_requested:
  "i < length (request_log st) \<Longrightarrow> request_log st ! i = (h, p, sel)
     \<Longrightarrow> sel \<in> set (requested_selectors st)"
  unfolding requested_selectors_def
  by (metis (mono_tags, lifting) case_prod_conv image_eqI nth_mem set_map)

lemma failures_recordedI:
  assumes "\<And>i h p sel. i < length (request_log st) \<Longrightarrow> request_log st ! i = (h, p, sel) \<Longrightarrow>
             (fst (request e i h p sel) = [] \<longrightarrow>
                sel \<in> invalid_references st \<and> sel \<notin> problematic_resources st)
             \<and> (fst (request e i h p sel) \<noteq> [] \<longrightarrow>
                  (sel \<in> problematic_resources st
                   \<longleftrightarrow> is_problematic_resource (str_lower e) sel
                         (length (fst (request e i h p sel))) (snd (request e i h p sel))))"
    and "problematic_resources st \<subseteq> set (requested_selectors st)"
  shows "failures_recorded e st"
  unfolding failures_recorded_def using assms by (auto split: prod.splits)

lemma failures_recordedD:
  assumes "failures_recorded e st" and "i < length (request_log st)"
    and "request_log st ! i = (h, p, sel)"
  shows "(fst (request e i h p sel) = [] \<longrightarrow>
            sel \<in> invalid_references st \<and> sel \<notin> problematic_resources st)
         \<and> (fst (request e i h p sel) \<noteq> [] \<longrightarrow>
              (sel \<in> problematic_resources st
               \<longleftrightarrow> is_problematic_resource (str_lower e) sel
                     (length (fst (request e i h p sel))) (snd (request e i h p sel))))"
  using assms unfolding failures_recorded_def by fastforce

lemma failures_recorded_after_request:
  assumes fr: "failures_recorded e st"
    and once: "set (requested_selectors st) = visited_selectors st"
    and new: "sel \<notin> visited_selectors st"
    and r: "request e (length (request_log st)) h p sel = (response, duration)"
    and st': "st' = (if response = [] then invalidated sel (requested h p sel duration st)
            else flagged (is_problematic_resource (str_lower e) sel (length response) duration)
                   sel (requested h p sel duration st))"
  shows "failures_recorded e st'"
proof (rule failures_recordedI)
  have clean: "sel \<notin> problematic_resources st"
    using fr once new by (auto simp: failures_recorded_def)
  have log: "request_log st' = request_log st @ [(h, p, sel)]"
    by (simp add: st')
  have inv: "invalid_references st \<subseteq> invalid_references st'"
    "response = [] \<Longrightarrow> sel \<in> invalid_references st'"
    by (auto simp: st')
  have prob: "problematic_resources st'
      = (if response \<noteq> [] \<and> is_problematic_resource (str_lower e) sel (length response) duration
         then insert sel (problematic_resources st) else problematic_resources st)"
    by (simp add: st')
  show "problematic_resources st' \<subseteq> set (requested_selectors st')"
    using fr prob log by (auto simp: failures_recorded_def requested_selectors_def)
  fix i h' p' sel'
  assume i: "i < length (request_log st')" and at: "request_log st' ! i = (h', p', sel')"
  show "(fst (request e i h' p' sel') = [] \<longrightarrow>
            sel' \<in> invalid_references st' \<and> sel' \<notin> problematic_resources st')
         \<and> (fst (request e i h' p' sel') \<noteq> [] \<longrightarrow>
              (sel' \<in> problematic_resources st'
               \<longleftrightarrow> is_problematic_resource (str_lower e) sel'
                     (length (fst (request e i h' p' sel'))) (snd (request e i h' p' sel'))))"
  proof (cases "i < length (request_log st)")
    case True
    then have at': "request_log st ! i = (h', p', sel')"
      using at log by (simp add: nth_append)
    have "sel' \<noteq> sel"
      using logged_selector_requested [OF True at'] once new by auto
    then have "sel' \<in> problematic_resources st' \<longleftrightarrow> sel' \<in> problematic_resources st"
      using prob by auto
    then show ?thesis
      using failures_recordedD [OF fr True at'] inv(1) by auto
  next
    case False
    then have "i = length (request_log st)"
      using i log by simp
    then have "(h', p', sel') = (h, p, sel)"
      using at log by simp
    then show ?thesis
      using \<open>i = length (request_log st)\<close> r prob clean inv(2) by auto
  qed
qed

lemma visit_failures_recorded:
  assumes "failures_recorded e st" and "set (requested_selectors st) = visited_selectors st"
    and "sel \<notin> visited_selectors st"
  shows "failures_recorded e (visit e sel h p st)"
proof -
  obtain response duration where
    r: "request e (length (request_log st)) h p sel = (response, duration)"
    by (cases "request e (length (request_log st)) h p sel") auto
  note base = failures_recorded_after_request [OF assms r refl]
  show ?thesis
  proof (cases "response = []")
    case True
    then show ?thesis
      using base by (simp add: visit_eq [OF r])
  next
    case False
    let ?fl = "flagged (is_problematic_resource (str_lower e) sel (length response) duration)
                sel (requested h p sel duration st)"
    have fl: "failures_recorded e ?fl"
      using base False by simp
    have "grows ?fl (visit e sel h p st)"
      using False
      by (auto simp: visit_eq [OF r]
          intro: process_file_grows grows_trans [OF listed_grows fold_process_item_grows])
    then show ?thesis
      using fl by (rule failures_recorded_grows [rotated])
  qed
qed

lemma reachable_failures_recorded:
  "reachable e host0 port0 st \<Longrightarrow> failures_recorded e st"
proof (induction rule: reachable.induct)
  case start
  show ?case by (simp add: failures_recorded_def initial_state_def)
next
  case (iterate st st')
  have pop: "failures_recorded e (popped st)"
    using iterate.IH by (simp add: failures_recorded_def requested_selectors_def)
  have once: "set (requested_selectors (popped st)) = visited_selectors (popped st)"
    using reachable_requests_once [OF iterate.hyps(1)] by (simp add: requests_once_def)
  from crawl_step_cases [OF iterate.hyps(4,2)] show ?case
  proof (elim disjE exE conjE)
    fix sel h p others
    assume "st' = popped st"
    then show ?thesis using pop by simp
  next
    fix sel h p others
    assume "st' = visit e sel h p (popped st)" and "sel \<notin> visited_selectors st"
    then show ?thesis
      using visit_failures_recorded [OF pop once, of sel h p] by simp
  qed
qed

lemma crawl_all_requests_fail:
  assumes "\<And>n h p sel. fst (request e n h p sel) = []"
  shows "\<exists>st. crawl e host0 port0 = Inr st \<and> request_log st = [(host0, port0, [])]
           \<and> directories st = [] \<and> text_files st = [] \<and> binary_files st = []
           \<and> invalid_references st = {[]}"
proof -
  obtain d where r: "request e 0 host0 port0 [] = ([], d)"
    using assms [of 0 host0 port0 "[]"] by (cases "request e 0 host0 port0 []") auto
  show ?thesis
    using r
    by (simp add: crawl_def initial_state_def crawl_loop.simps crawl_step_def visit_def
        max_items_def max_queue_size_def Let_def)
qed

lemma recv_error_leaves:
  assumes "length (received c k) \<le> m" and "clock c k - start_time c \<le> mt"
    and "recv c k = Inl err" and "err \<noteq> SocketTimeout"
  shows "leaves c t m mt k = Some (Inl err)"
  using assms by (cases err) (simp_all add: leaves_def)

lemma flagged_was_requested:
  assumes "failures_recorded e st" and "s \<in> problematic_resources st"
  shows "\<exists>i < length (request_log st). \<exists>h p. request_log st ! i = (h, p, s)
           \<and> fst (request e i h p s) \<noteq> []
           \<and> is_problematic_resource (str_lower e) s
                (length (fst (request e i h p s))) (snd (request e i h p s))"
proof -
  have "s \<in> set (requested_selectors st)"
    using assms by (auto simp: failures_recorded_def)
  then obtain i where i: "i < length (request_log st)"
    "(\<lambda>(h, p, sel). sel) (request_log st ! i) = s"
    by (auto simp: requested_selectors_def in_set_conv_nth)
  then obtain h p where at: "request_log st ! i = (h, p, s)"
    by (cases "request_log st ! i") auto
  from failures_recordedD [OF assms(1) i(1) at] assms(2) i(1) at show ?thesis
    by blast
qed
text \<open>
  C6 (as the code has it). Every crawl ends with a final state, whatever the
  requests return. \<open>send_gopher_request\<close> answers every exception with the empty
  bytes: an exception of \<open>connect\<close>, one of \<open>sendall\<close>, and one of a \<open>recv\<close> that the
  loop gets to, unless it is \<open>socket.timeout\<close>, which the loop handles itself (the
  bytes received before the exception are dropped). In every state of a crawl,
  the selector of each request that returned the empty bytes is in
  \<open>invalid_references\<close> and not in \<open>problematic_resources\<close>; the selector of each
  request that returned bytes is in \<open>problematic_resources\<close> exactly when
  \<open>is_problematic_resource\<close> accepts the response (a keyword in the selector, more
  than 1 MB with more than 15 seconds, or at least 25 seconds); and every
  selector in \<open>problematic_resources\<close> is that of such a request. When every request
  fails, the crawl ends after the root request with no directory, no file and the
  root as the one invalid reference. The lines that the program prints are taken
  to be written without error.
\<close>

theorem failures_do_not_abort_crawl:
  "(\<exists>st. crawl e host0 port0 = Inr st)
   \<and> (connect_raises c \<noteq> None \<or> sendall_raises c \<noteq> None \<longrightarrow>
        send_gopher_request c timeout max_data_size max_time = Some [])
   \<and> ((\<forall>k' < k. leaves c timeout max_data_size max_time k' = None)
        \<and> length (received c k) \<le> max_data_size \<and> clock c k - start_time c \<le> max_time
        \<and> recv c k = Inl err \<and> err \<noteq> SocketTimeout \<longrightarrow>
        recv_loop c timeout max_data_size max_time 0 [] (start_time c) = Some (Inl err)
        \<and> send_gopher_request c timeout max_data_size max_time = Some [])
   \<and> (reachable e host0 port0 st1 \<and> i < length (request_log st1)
        \<and> request_log st1 ! i = (h, p, sel) \<longrightarrow>
        (fst (request e i h p sel) = [] \<longrightarrow>
           sel \<in> invalid_references st1 \<and> sel \<notin> problematic_resources st1)
        \<and> (fst (request e i h p sel) \<noteq> [] \<longrightarrow>
             (sel \<in> problematic_resources st1
              \<longleftrightarrow> is_problematic_resource (str_lower e) sel
                    (length (fst (request e i h p sel))) (snd (request e i h p sel)))))
   \<and> (reachable e host0 port0 st1 \<and> s \<in> problematic_resources st1 \<longrightarrow>
        (\<exists>n < length (request_log st1). \<exists>h' p'. request_log st1 ! n = (h', p', s)
           \<and> fst (request e n h' p' s) \<noteq> []
           \<and> is_problematic_resource (str_lower e) s
                (length (fst (request e n h' p' s))) (snd (request e n h' p' s))))
   \<and> (is_problematic_resource lower x file_size download_time
        \<longleftrightarrow> (\<exists>keyword \<in> set problem_keywords. str_contains (lower x) keyword)
            \<or> (file_size > 1024 * 1024 \<and> download_time > 15)
            \<or> download_time \<ge> 25)
   \<and> ((\<forall>n h p sel. fst (request e n h p sel) = []) \<longrightarrow>
        (\<exists>st. crawl e host0 port0 = Inr st \<and> request_log st = [(host0, port0, [])]
           \<and> directories st = [] \<and> text_files st = [] \<and> binary_files st = []
           \<and> invalid_references st = {[]}))"
proof -
  have a: "\<exists>st. crawl e host0 port0 = Inr st"
    using crawl_loop_Inr [of e "initial_state host0 port0"] by (simp add: crawl_def)
  have b: "send_gopher_request c timeout max_data_size max_time = Some []"
    if "connect_raises c \<noteq> None \<or> sendall_raises c \<noteq> None"
    using that by (auto simp: send_gopher_request_def split: option.splits)
  have b': "recv_loop c timeout max_data_size max_time 0 [] (start_time c) = Some (Inl err)
        \<and> send_gopher_request c timeout max_data_size max_time = Some []"
    if "\<forall>k' < k. leaves c timeout max_data_size max_time k' = None"
      "length (received c k) \<le> max_data_size" "clock c k - start_time c \<le> max_time"
      "recv c k = Inl err" "err \<noteq> SocketTimeout"
  proof -
    have "leaves c timeout max_data_size max_time k = Some (Inl err)"
      using that(2-5) by (rule recv_error_leaves)
    then have l: "left_at c timeout max_data_size max_time k (Inl err)"
      using that(1) by (simp add: left_at_def)
    show ?thesis
      using left_at_recv_loop [OF l] send_gopher_request_left_at [OF l] by simp
  qed
  have c: "(fst (request e i h p sel) = [] \<longrightarrow>
           sel \<in> invalid_references st1 \<and> sel \<notin> problematic_resources st1)
        \<and> (fst (request e i h p sel) \<noteq> [] \<longrightarrow>
             (sel \<in> problematic_resources st1
              \<longleftrightarrow> is_problematic_resource (str_lower e) sel
                    (length (fst (request e i h p sel))) (snd (request e i h p sel))))"
    if "reachable e host0 port0 st1" "i < length (request_log st1)"
      "request_log st1 ! i = (h, p, sel)"
    using failures_recordedD [OF reachable_failures_recorded [OF that(1)] that(2,3)] .
  have c': "\<exists>n < length (request_log st1). \<exists>h' p'. request_log st1 ! n = (h', p', s)
           \<and> fst (request e n h' p' s) \<noteq> []
           \<and> is_problematic_resource (str_lower e) s
                (length (fst (request e n h' p' s))) (snd (request e n h' p' s))"
    if "reachable e host0 port0 st1" "s \<in> problematic_resources st1"
    using flagged_was_requested [OF reachable_failures_recorded [OF that(1)] that(2)] .
  have t: "is_problematic_resource lower x file_size download_time
        \<longleftrightarrow> (\<exists>keyword \<in> set problem_keywords. str_contains (lower x) keyword)
            \<or> (file_size > 1024 * 1024 \<and> download_time > 15)
            \<or> download_time \<ge> 25"
    by (auto simp: is_problematic_resource_def)
  have d: "\<exists>st. crawl e host0 port0 = Inr st \<and> request_log st = [(host0, port0, [])]
           \<and> directories st = [] \<and> text_files st = [] \<and> binary_files st = []
           \<and> invalid_references st = {[]}"
    if "\<forall>n h p sel. fst (request e n h p sel) = []"
    using that by (intro crawl_all_requests_fail) simp
  show ?thesis
    using a b b' c c' t d by blast
qed

text \<open>
  The crawl of \<open>dead_server\<close>, where every request fails: the root is recorded as an
  invalid reference and is no problematic resource. \<open>resetting_peer\<close> sends two
  bytes and then resets the connection: the request returns the empty bytes.
\<close>

theorem failures_do_not_abort_crawl_witness:
  "(\<forall>n h p sel. fst (request dead_server n h p sel) = [])
   \<and> (\<exists>st. crawl dead_server (str_of ''host'') 70 = Inr st
         \<and> reachable dead_server (str_of ''host'') 70 st
         \<and> request_log st = [(str_of ''host'', 70, [])]
         \<and> directories st = [] \<and> text_files st = [] \<and> binary_files st = []
         \<and> invalid_references st = {[]}
         \<and> [] \<notin> problematic_resources st)
   \<and> leaves resetting_peer 10 (10 * 1024 * 1024) 30 0 = None
   \<and> recv resetting_peer 1 = Inl SocketError
   \<and> send_gopher_request resetting_peer 10 (10 * 1024 * 1024) 30 = Some []"
proof -
  have h: "\<forall>n h p sel. fst (request dead_server n h p sel) = []"
    by (simp add: dead_server_def)
  note all_fail = failures_do_not_abort_crawl [where e = dead_server
      and ?host0.0 = "str_of ''host''" and ?port0.0 = 70,
      THEN conjunct2, THEN conjunct2, THEN conjunct2, THEN conjunct2, THEN conjunct2,
      THEN conjunct2]
  obtain st where st: "crawl dead_server (str_of ''host'') 70 = Inr st"
    "request_log st = [(str_of ''host'', 70, [])]"
    "directories st = []" "text_files st = []" "binary_files st = []"
    "invalid_references st = {[]}"
    using h all_fail by blast
  have r: "reachable dead_server (str_of ''host'') 70 st"
    using st(1) by (rule crawl_reachable)
  note recorded = failures_do_not_abort_crawl [where e = dead_server
      and ?host0.0 = "str_of ''host''" and ?port0.0 = 70 and ?st1.0 = st and i = 0
      and h = "str_of ''host''" and p = 70 and sel = "[]",
      THEN conjunct2, THEN conjunct2, THEN conjunct2, THEN conjunct1]
  have "[] \<notin> problematic_resources st"
    using recorded r st(2) h by simp
  moreover have l: "leaves resetting_peer 10 (10 * 1024 * 1024) 30 0 = None"
    by (simp add: leaves_def resetting_peer_def received_def bytes_of_def)
  moreover have e: "recv resetting_peer 1 = Inl SocketError"
    by (simp add: resetting_peer_def)
  moreover have "send_gopher_request resetting_peer 10 (10 * 1024 * 1024) 30 = Some []"
  proof -
    have "\<forall>k' < 1. leaves resetting_peer 10 (10 * 1024 * 1024) 30 k' = None"
      using l by simp
    moreover have "length (received resetting_peer 1) \<le> 10 * 1024 * 1024"
      "clock resetting_peer 1 - start_time resetting_peer \<le> 30"
      by (simp_all add: resetting_peer_def received_def bytes_of_def)
    ultimately show ?thesis
      using e failures_do_not_abort_crawl [where c = resetting_peer and timeout = 10
          and max_data_size = "10 * 1024 * 1024" and max_time = 30 and k = 1
          and err = SocketError, THEN conjunct2, THEN conjunct2, THEN conjunct1]
      by simp
  qed
  ultimately show ?thesis
    using h st r by blast
qed

text \<open>
  The crawl of \<open>stalled_server\<close>: the request for \<open>/f\<close> leaves the receive loop by
  the receive timeout with the five bytes \<open>hello\<close>; \<open>/f\<close> becomes a text file and
  is neither an invalid reference nor a problematic resource.
\<close>

theorem stalled_response_is_not_flagged:
  "recv_loop stalled_peer 10 (10 * 1024 * 1024) 30 0 [] (start_time stalled_peer)
     = Some (Inr (bytes_of ''hello'', ReceiveTimeout))
   \<and> (\<exists>st. crawl stalled_server (str_of ''host'') 70 = Inr st
         \<and> request_log st = [(str_of ''host'', 70, []), (str_of ''host'', 70, str_of ''/f'')]
         \<and> text_files st = [str_of ''/f'']
         \<and> str_of ''/f'' \<notin> invalid_references st
         \<and> str_of ''/f'' \<notin> problematic_resources st)"
proof -
  have loop: "recv_loop stalled_peer 10 (10 * 1024 * 1024) 30 0 [] (start_time stalled_peer)
     = Some (Inr (bytes_of ''hello'', ReceiveTimeout))"
    by (simp add: recv_loop.simps stalled_peer_def bytes_of_def)
  then have req: "send_gopher_request stalled_peer 10 (10 * 1024 * 1024) 30
                    = Some (bytes_of ''hello'')"
    by (simp add: send_gopher_request_def stalled_peer_def)
  have "\<exists>st. crawl stalled_server (str_of ''host'') 70 = Inr st
         \<and> request_log st = [(str_of ''host'', 70, []), (str_of ''host'', 70, str_of ''/f'')]
         \<and> text_files st = [str_of ''/f'']
         \<and> str_of ''/f'' \<notin> invalid_references st
         \<and> str_of ''/f'' \<notin> problematic_resources st"
    using req by (simp add: run_crawl run_parser stalled_server_def)
  with loop show ?thesis by simp
qed

end
